theory Spec2Isabelle
  imports Complex_Main
begin

section \<open>Gallery reconciler (App.tsx)\<close>

subsection \<open>Rows and JavaScript truthiness\<close>

text \<open>
  \<^verbatim>\<open>type UnlockedRow = { id: string; image_url: string | null; created_at?: string | null }\<close>

  \<open>image_url\<close> is \<open>None\<close> for \<open>null\<close>. The optional key \<open>created_at\<close> is
  \<open>None\<close> when the key is missing, \<open>Some None\<close> for \<open>null\<close> and
  \<open>Some (Some s)\<close> for a string. Both variants of App.tsx declare the same type.
\<close>

record UnlockedRow =
  u_id :: string
  u_image_url :: "string option"
  u_created_at :: "string option option"

text \<open>
  \<open>!!v\<close> for a value of type \<open>string | null\<close>: \<open>null\<close> and the empty string are
  falsy, every other string is truthy.
\<close>

definition truthy :: "string option \<Rightarrow> bool" where
  "truthy v = (case v of None \<Rightarrow> False | Some s \<Rightarrow> s \<noteq> [])"

text \<open>\<open>r.created_at ?? null\<close>: a missing key and \<open>null\<close> both become \<open>null\<close>.\<close>

definition nullish_to_null :: "string option option \<Rightarrow> string option option" where
  "nullish_to_null c = (case c of None \<Rightarrow> Some None | Some v \<Rightarrow> Some v)"

text \<open>
  \<^verbatim>\<open>(data ?? []).filter((r) => !!r.image_url).map((r) => ({ id, image_url, created_at: r.created_at ?? null }))\<close>
\<close>

definition cleaned :: "UnlockedRow list option \<Rightarrow> UnlockedRow list" where
  "cleaned data =
     map (\<lambda>r. \<lparr>u_id = u_id r, u_image_url = u_image_url r,
                u_created_at = nullish_to_null (u_created_at r)\<rparr>)
       (filter (\<lambda>r. truthy (u_image_url r)) (case data of None \<Rightarrow> [] | Some rs \<Rightarrow> rs))"

subsection \<open>Backend replies\<close>

text \<open>
  A thrown or returned error object; only its \<open>message\<close> is read by the code
  (\<open>e?.message\<close>), which may be missing.
\<close>

datatype js_error = JsError "string option"

text \<open>
  The result of an awaited query: the client returns \<open>{ data, error }\<close>
  (\<open>Reply data error\<close>), or the awaited promise rejects (\<open>Rejected e\<close>).
\<close>

datatype 'a reply = Reply "'a option" "js_error option" | Rejected js_error

text \<open>
  The fallback literal of both \<open>catch\<close> blocks of \<open>fetchImages\<close> is a Korean
  sentence ("an error occurred while loading the data"); the theory is ASCII, so the
  literal is written by its English gloss. Only the fact that it is a fixed non-empty
  text is used.
\<close>

definition load_failed_text :: string where
  "load_failed_text = ''An error occurred while loading the data.''"

text \<open>\<open>e?.message ?? '...'\<close>\<close>

definition message_or_default :: "js_error \<Rightarrow> string" where
  "message_or_default e = (case e of JsError None \<Rightarrow> load_failed_text | JsError (Some m) \<Rightarrow> m)"

subsection \<open>Live change handlers\<close>

text \<open>
  The INSERT handler of the unbounded variant:
  \<^verbatim>\<open>if (!newRow?.image_url) return;
  setRows((prev) => { const withoutDup = prev.filter((r) => r.id !== newRow.id);
                      return [{ ...newRow }, ...withoutDup]; });\<close>
\<close>

definition withoutDup :: "UnlockedRow \<Rightarrow> UnlockedRow list \<Rightarrow> UnlockedRow list" where
  "withoutDup newRow prev = filter (\<lambda>r. u_id r \<noteq> u_id newRow) prev"

definition onInsert :: "UnlockedRow \<Rightarrow> UnlockedRow list \<Rightarrow> UnlockedRow list" where
  "onInsert newRow prev =
     (if \<not> truthy (u_image_url newRow) then prev else newRow # withoutDup newRow prev)"

text \<open>
  The INSERT handler of the bounded variant ends with \<open>.slice(0, 16)\<close>.
\<close>

definition onInsert16 :: "UnlockedRow \<Rightarrow> UnlockedRow list \<Rightarrow> UnlockedRow list" where
  "onInsert16 newRow prev =
     (if \<not> truthy (u_image_url newRow) then prev else take 16 (newRow # withoutDup newRow prev))"

text \<open>
  \<open>{ ...r, ...updated }\<close>: every key of \<open>updated\<close> overwrites the key of \<open>r\<close>;
  \<open>id\<close> and \<open>image_url\<close> are always keys of \<open>updated\<close>, \<open>created_at\<close> only
  when it is present there.
\<close>

definition merge_row :: "UnlockedRow \<Rightarrow> UnlockedRow \<Rightarrow> UnlockedRow" where
  "merge_row r updated =
     \<lparr>u_id = u_id updated, u_image_url = u_image_url updated,
      u_created_at = (case u_created_at updated of None \<Rightarrow> u_created_at r | Some v \<Rightarrow> Some v)\<rparr>"

text \<open>
  The UPDATE handler, the same text in both variants:
  \<^verbatim>\<open>setRows((prev) => prev.map((r) => r.id === updated.id ? { ...r, ...updated } : r))\<close>
\<close>

definition onUpdate :: "UnlockedRow \<Rightarrow> UnlockedRow list \<Rightarrow> UnlockedRow list" where
  "onUpdate updated prev = map (\<lambda>r. if u_id r = u_id updated then merge_row r updated else r) prev"

text \<open>
  The DELETE handler, the same text in both variants:
  \<^verbatim>\<open>setRows((prev) => prev.filter((r) => r.id !== deleted.id))\<close>
\<close>

definition onDelete :: "UnlockedRow \<Rightarrow> UnlockedRow list \<Rightarrow> UnlockedRow list" where
  "onDelete deleted prev = filter (\<lambda>r. u_id r \<noteq> u_id deleted) prev"

subsection \<open>The unbounded variant\<close>

text \<open>
  The component state: \<open>rows\<close>, \<open>loading\<close> and \<open>error\<close>, with the initial values
  of the three \<open>useState\<close> calls.
\<close>

record App =
  rows :: "UnlockedRow list"
  loading :: bool
  error :: "string option"

definition App_init :: App where
  "App_init = \<lparr>rows = [], loading = True, error = None\<rparr>"

text \<open>
  \<open>fetchImages\<close> once the awaited query has settled (\<open>setLoading(true)\<close> before the
  \<open>await\<close> repeats the initial value): \<open>if (error) throw error\<close>, then
  \<open>setRows(cleaned)\<close>; the \<open>catch\<close> sets \<open>error\<close>; \<open>finally\<close> clears \<open>loading\<close>.
\<close>

definition fetchImages :: "UnlockedRow list reply \<Rightarrow> App \<Rightarrow> App" where
  "fetchImages rep st =
     (case rep of
        Reply d None \<Rightarrow> st\<lparr>rows := cleaned d, loading := False\<rparr>
      | Reply d (Some e) \<Rightarrow> st\<lparr>error := Some (message_or_default e), loading := False\<rparr>
      | Rejected e \<Rightarrow> st\<lparr>error := Some (message_or_default e), loading := False\<rparr>)"

text \<open>The banner \<open>{error && <p>...</p>}\<close> is rendered when \<open>error\<close> is truthy.\<close>

definition error_banner :: "App \<Rightarrow> bool" where
  "error_banner st = truthy (error st)"

text \<open>
  What reaches the component: the settled initial query and the three kinds of live
  events, each carrying the row of its payload (\<open>payload.new\<close>, or \<open>payload.old\<close>
  for a delete, of which only the id is read). The handlers cast the payload to
  \<open>UnlockedRow\<close>, and so does the model: the row is there and has the type's keys.
\<close>

datatype event =
  FETCHED "UnlockedRow list reply"
| INSERT UnlockedRow
| UPDATE UnlockedRow
| DELETE UnlockedRow

fun step :: "event \<Rightarrow> App \<Rightarrow> App" where
  "step (FETCHED rep) st = fetchImages rep st"
| "step (INSERT newRow) st = st\<lparr>rows := onInsert newRow (rows st)\<rparr>"
| "step (UPDATE updated) st = st\<lparr>rows := onUpdate updated (rows st)\<rparr>"
| "step (DELETE deleted) st = st\<lparr>rows := onDelete deleted (rows st)\<rparr>"

definition run :: "event list \<Rightarrow> App \<Rightarrow> App" where
  "run evs st = foldl (\<lambda>s e. step e s) st evs"

subsection \<open>The bounded variant (16 slots)\<close>

text \<open>
  The state of the second \<open>App\<close>: \<open>rows\<close>, the in-flight markers \<open>deleting\<close>
  (\<open>Record<string, boolean>\<close>) and \<open>statusMsg\<close>; \<open>hovered\<close> and \<open>frames\<close> are
  left out, no handler below reads or writes them. The effects outside React state
  are kept as logs: the \<open>alert\<close> dialogs shown, the \<open>console.error\<close> lines, and the
  timers started with \<open>setTimeout\<close> (delay in milliseconds and what the callback does).
\<close>

datatype timer_action = ClearStatusMsg

record App16 =
  rows16 :: "UnlockedRow list"
  deleting :: "string \<rightharpoonup> bool"
  statusMsg :: string
  alerts :: "string list"
  console :: "string list"
  timeouts :: "(nat \<times> timer_action) list"

definition App16_init :: App16 where
  "App16_init = \<lparr>rows16 = [], deleting = Map.empty, statusMsg = [], alerts = [],
                  console = [], timeouts = []\<rparr>"

text \<open>
  \<open>fetchImages\<close> of the bounded variant: \<open>setRows(cleaned.slice(0, 16))\<close>; its
  \<open>catch\<close> only calls \<open>console.error\<close>, and there is no \<open>finally\<close>.
\<close>

definition fetchImages16 :: "UnlockedRow list reply \<Rightarrow> App16 \<Rightarrow> App16" where
  "fetchImages16 rep st =
     (case rep of
        Reply d None \<Rightarrow> st\<lparr>rows16 := take 16 (cleaned d)\<rparr>
      | Reply d (Some e) \<Rightarrow> st\<lparr>console := console st @ [message_or_default e]\<rparr>
      | Rejected e \<Rightarrow> st\<lparr>console := console st @ [message_or_default e]\<rparr>)"

fun step16 :: "event \<Rightarrow> App16 \<Rightarrow> App16" where
  "step16 (FETCHED rep) st = fetchImages16 rep st"
| "step16 (INSERT newRow) st = st\<lparr>rows16 := onInsert16 newRow (rows16 st)\<rparr>"
| "step16 (UPDATE updated) st = st\<lparr>rows16 := onUpdate updated (rows16 st)\<rparr>"
| "step16 (DELETE deleted) st = st\<lparr>rows16 := onDelete deleted (rows16 st)\<rparr>"

definition run16 :: "event list \<Rightarrow> App16 \<Rightarrow> App16" where
  "run16 evs st = foldl (\<lambda>s e. step16 e s) st evs"

subsection \<open>The user's delete in the bounded variant\<close>

text \<open>
  The status texts of \<open>handleDelete\<close> are Korean template literals; they are written
  by their English glosses, with the interpolated values in place.
  \<open>${delErr.message ?? delErr}\<close> prints the message, or the error object itself when it
  has none.
\<close>

definition newline :: string where
  "newline = [CHR 0x0A]"

definition error_text :: "js_error \<Rightarrow> string" where
  "error_text e = (case e of JsError None \<Rightarrow> ''[object Object]'' | JsError (Some m) \<Rightarrow> m)"

text \<open>
  Up to the \<open>await\<close>: the guard \<open>if (!row?.id) return\<close>, then the in-flight marker
  and the first status text.
\<close>

definition handleDelete_begin :: "UnlockedRow \<Rightarrow> App16 \<Rightarrow> App16" where
  "handleDelete_begin row st =
     (if u_id row = [] then st
      else st\<lparr>deleting := (deleting st)(u_id row \<mapsto> True),
              statusMsg := ''delete started: id='' @ u_id row\<rparr>)"

text \<open>
  The \<open>finally\<close> block: the marker of \<open>row.id\<close> is deleted from \<open>deleting\<close> and
  \<open>setTimeout(() => setStatusMsg(''), 3000)\<close> is started.
\<close>

definition handleDelete_finally :: "UnlockedRow \<Rightarrow> App16 \<Rightarrow> App16" where
  "handleDelete_finally row st =
     st\<lparr>deleting := (deleting st)(u_id row := None),
        timeouts := timeouts st @ [(3000, ClearStatusMsg)]\<rparr>"

text \<open>
  From the \<open>await\<close> on, in the state the component has when the remote delete settles:
  a returned error appends the failure text, alerts and returns; success appends two
  texts and filters \<open>rows\<close>; a rejected promise is caught, logged and alerted. The
  \<open>finally\<close> block runs in all three cases.
\<close>

definition handleDelete_end :: "UnlockedRow \<Rightarrow> unit reply \<Rightarrow> App16 \<Rightarrow> App16" where
  "handleDelete_end row rep st =
     handleDelete_finally row
       (case rep of
          Reply d (Some delErr) \<Rightarrow>
            st\<lparr>statusMsg := statusMsg st @ newline @ ''[error] DB delete failed: '' @ error_text delErr,
               alerts := alerts st @ [''DB delete failed:'' @ newline @ error_text delErr]\<rparr>
        | Reply d None \<Rightarrow>
            st\<lparr>statusMsg := statusMsg st @ newline @ ''DB delete succeeded''
                               @ newline @ ''done (the Storage file is kept)'',
               rows16 := filter (\<lambda>r. u_id r \<noteq> u_id row) (rows16 st)\<rparr>
        | Rejected e \<Rightarrow>
            st\<lparr>statusMsg := statusMsg st @ newline @ ''[exception] '' @ error_text e,
               alerts := alerts st @ [''An exception occurred while deleting.''
                                      @ newline @ ''Please check the console.''],
               console := console st @ [error_text e]\<rparr>)"

text \<open>The whole handler when nothing else happens during the \<open>await\<close>.\<close>

definition handleDelete :: "UnlockedRow \<Rightarrow> unit reply \<Rightarrow> App16 \<Rightarrow> App16" where
  "handleDelete row rep st =
     (if u_id row = [] then st else handleDelete_end row rep (handleDelete_begin row st))"

text \<open>A timer's callback: \<open>() => setStatusMsg('')\<close>.\<close>

fun fire :: "timer_action \<Rightarrow> App16 \<Rightarrow> App16" where
  "fire ClearStatusMsg st = st\<lparr>statusMsg := []\<rparr>"

text \<open>Whether the awaited call came back without an error.\<close>

fun succeeded :: "'a reply \<Rightarrow> bool" where
  "succeeded (Reply d None) = True"
| "succeeded (Reply d (Some e)) = False"
| "succeeded (Rejected e) = False"

fun failure_of :: "'a reply \<Rightarrow> js_error option" where
  "failure_of (Reply d eo) = eo"
| "failure_of (Rejected e) = Some e"

text \<open>The bulk loads of an event sequence that return rows with pairwise distinct ids.\<close>

fun fetched_distinct :: "event \<Rightarrow> bool" where
  "fetched_distinct (FETCHED (Reply (Some d) None)) = distinct (map u_id d)"
| "fetched_distinct e = True"

text \<open>
  The live updates of an event sequence that carry an image url other than \<open>null\<close>,
  and those that carry one other than the empty string.
\<close>

fun update_present :: "event \<Rightarrow> bool" where
  "update_present (UPDATE updated) = (u_image_url updated \<noteq> None)"
| "update_present e = True"

fun update_nonempty :: "event \<Rightarrow> bool" where
  "update_nonempty (UPDATE updated) = (u_image_url updated \<noteq> Some [])"
| "update_nonempty e = True"

section \<open>Layout editor (setting.tsx)\<close>

subsection \<open>Dragging a frame\<close>

text \<open>
  JavaScript numbers are taken as real numbers: the coordinates are pixel values far
  inside the range where the four additions of \<open>onMove\<close> are exact, and
  \<open>Math.round\<close> is \<open>\<lfloor>v + 1/2\<rfloor>\<close>, which is \<^const>\<open>round\<close>.

  A frame's box \<open>{ x, y, w, h }\<close>, the drag session held in \<open>dragging\<close>, and the two
  fields of the mouse event that \<open>onMove\<close> reads.
\<close>

record view =
  v_x :: real
  v_y :: real
  v_w :: real
  v_h :: real

record Dragging =
  d_id :: string
  offsetX :: real
  offsetY :: real
  canvasLeft :: real
  canvasTop :: real
  scrollLeft :: real
  scrollTop :: real

record MouseEvent =
  clientX :: real
  clientY :: real

text \<open>
  What a state updater hands back to React: the object it was given (\<open>return prev\<close>,
  so React keeps the state and no effect runs again) or a new object.
\<close>

datatype 'a updated = Same | New 'a

text \<open>
  The state of \<open>SettingPage\<close> that the drag touches: \<open>views\<close>, \<open>dragging\<close>, and
  the debounce timer of the effect on \<open>[views]\<close>, kept as the number of times the
  400 ms timer has been cleared and started again.
\<close>

record Setting =
  views :: "string \<rightharpoonup> view"
  dragging :: "Dragging option"
  timer_resets :: nat

text \<open>
  The updater passed to \<open>setViews\<close> in \<open>onMove\<close>:
  \<^verbatim>\<open>const cur = prev[id] ?? { x: 0, y: 0, w: 260, h: 180 };
  const nextX = e.clientX - canvasLeft + scrollLeft - offsetX;
  const nextY = e.clientY - canvasTop + scrollTop - offsetY;
  if (Math.round(cur.x) === Math.round(nextX) && Math.round(cur.y) === Math.round(nextY)) return prev;
  return { ...prev, [id]: { ...cur, x: nextX, y: nextY } };\<close>
\<close>

definition cur_view :: "(string \<rightharpoonup> view) \<Rightarrow> string \<Rightarrow> view" where
  "cur_view prev i =
     (case prev i of None \<Rightarrow> \<lparr>v_x = 0, v_y = 0, v_w = 260, v_h = 180\<rparr> | Some v \<Rightarrow> v)"

definition nextX :: "Dragging \<Rightarrow> MouseEvent \<Rightarrow> real" where
  "nextX d e = clientX e - canvasLeft d + scrollLeft d - offsetX d"

definition nextY :: "Dragging \<Rightarrow> MouseEvent \<Rightarrow> real" where
  "nextY d e = clientY e - canvasTop d + scrollTop d - offsetY d"

definition move_views :: "Dragging \<Rightarrow> MouseEvent \<Rightarrow> (string \<rightharpoonup> view) \<Rightarrow> (string \<rightharpoonup> view) updated" where
  "move_views d e prev =
     (let cur = cur_view prev (d_id d)
      in if round (v_x cur) = round (nextX d e) \<and> round (v_y cur) = round (nextY d e) then Same
         else New (prev(d_id d \<mapsto> cur\<lparr>v_x := nextX d e, v_y := nextY d e\<rparr>)))"

text \<open>
  \<open>setViews(updater)\<close>: a new object replaces \<open>views\<close> and the effect on \<open>[views]\<close>
  clears and restarts the debounce timer; the same object changes nothing.
\<close>

definition setViews :: "((string \<rightharpoonup> view) \<Rightarrow> (string \<rightharpoonup> view) updated) \<Rightarrow> Setting \<Rightarrow> Setting" where
  "setViews f st =
     (case f (views st) of
        Same \<Rightarrow> st
      | New v \<Rightarrow> st\<lparr>views := v, timer_resets := Suc (timer_resets st)\<rparr>)"

text \<open>\<open>onMove\<close>: \<open>if (!dragging) return\<close>, else the update above.\<close>

definition onMove :: "MouseEvent \<Rightarrow> Setting \<Rightarrow> Setting" where
  "onMove e st = (case dragging st of None \<Rightarrow> st | Some d \<Rightarrow> setViews (move_views d e) st)"

subsection \<open>Duplicate cleanup\<close>

text \<open>
  \<^verbatim>\<open>type LockedRow = { id: string; nfc_id: string | null; created_at: string | null }\<close>
\<close>

record LockedRow =
  l_id :: string
  l_nfc_id :: "string option"
  l_created_at :: "string option"

text \<open>\<open>String(row.nfc_id ?? '')\<close>\<close>

definition nfc_key :: "LockedRow \<Rightarrow> string" where
  "nfc_key row = (case l_nfc_id row of None \<Rightarrow> [] | Some s \<Rightarrow> s)"

text \<open>
  \<open>byNfc\<close> is a plain object, \<open>const byNfc: Record<string, LockedRow[]> = {}\<close>, so
  a lookup \<open>byNfc[key]\<close> also finds what the object inherits from
  \<open>Object.prototype\<close>. These are the names of the members ECMAScript gives that
  prototype (Annex B included); each is a function, or for \<open>__proto__\<close> the
  prototype object itself: truthy, and without a \<open>push\<close> method.
\<close>

definition Object_prototype_keys :: "string list" where
  "Object_prototype_keys =
     [''constructor'', ''__defineGetter__'', ''__defineSetter__'', ''hasOwnProperty'',
      ''__lookupGetter__'', ''__lookupSetter__'', ''isPrototypeOf'', ''propertyIsEnumerable'',
      ''toString'', ''valueOf'', ''__proto__'', ''toLocaleString'']"

text \<open>The \<open>TypeError\<close> of calling the missing \<open>push\<close>.\<close>

definition push_TypeError :: js_error where
  "push_TypeError = JsError (Some ''byNfc[key].push is not a function'')"

text \<open>
  The own properties of \<open>byNfc\<close> are kept as an association list in the order the
  keys were first seen. (JavaScript lists keys that look like array indices before
  the others; the order of the groups decides only the order in which ids are
  collected, never which ids.) For a key that is not inherited,
  \<^verbatim>\<open>if (!byNfc[key]) byNfc[key] = []; byNfc[key].push(row);\<close>
  gives a new key a new array and pushes the row at the end of its key's array.
\<close>

fun push_row :: "LockedRow \<Rightarrow> (string \<times> LockedRow list) list \<Rightarrow> (string \<times> LockedRow list) list" where
  "push_row row [] = [(nfc_key row, [row])]"
| "push_row row ((k, g) # m) =
     (if k = nfc_key row then (k, g @ [row]) # m else (k, g) # push_row row m)"

text \<open>
  The callback of \<open>lockedRows.forEach\<close>. For a key that names an inherited member,
  \<open>!byNfc[key]\<close> is false, no array is stored, and \<open>byNfc[key].push(row)\<close> throws;
  so no such key ever becomes an own property.
\<close>

definition group_row :: "LockedRow \<Rightarrow> (string \<times> LockedRow list) list \<Rightarrow> js_error + (string \<times> LockedRow list) list" where
  "group_row row m =
     (if nfc_key row \<in> set Object_prototype_keys then Inl push_TypeError
      else Inr (push_row row m))"

text \<open>The pass over the rows; an exception of the callback ends it.\<close>

fun group_rows :: "LockedRow list \<Rightarrow> (string \<times> LockedRow list) list \<Rightarrow> js_error + (string \<times> LockedRow list) list" where
  "group_rows [] m = Inr m"
| "group_rows (row # rs) m =
     (case group_row row m of Inl e \<Rightarrow> Inl e | Inr m' \<Rightarrow> group_rows rs m')"

text \<open>\<open>(lockedRows as LockedRow[] | null)?.forEach(...)\<close>, from the empty object.\<close>

definition byNfc :: "LockedRow list option \<Rightarrow> js_error + (string \<times> LockedRow list) list" where
  "byNfc lockedRows = group_rows (case lockedRows of None \<Rightarrow> [] | Some rs \<Rightarrow> rs) []"

text \<open>
  \<open>a.created_at ? Date.parse(a.created_at) : 0\<close>: \<open>null\<close> and the empty string
  count as 0. \<open>Date.parse\<close> belongs to the platform and is a parameter: it gives the
  milliseconds of a timestamp text, or \<open>NaN\<close> (here \<open>None\<close>) for a text it cannot
  read.
\<close>

definition created_ms :: "(string \<Rightarrow> int option) \<Rightarrow> LockedRow \<Rightarrow> int option" where
  "created_ms parse r =
     (case l_created_at r of None \<Rightarrow> Some 0 | Some s \<Rightarrow> if s = [] then Some 0 else parse s)"

text \<open>The milliseconds of a row whose timestamp is a number.\<close>

definition millis :: "(string \<Rightarrow> int option) \<Rightarrow> LockedRow \<Rightarrow> int" where
  "millis parse r = (case created_ms parse r of None \<Rightarrow> 0 | Some t \<Rightarrow> t)"

text \<open>
  \<open>rows.sort((a, b) => tb - ta)\<close>. When every timestamp of the array is a number,
  the comparator is consistent and the built-in sort, which is stable, orders by
  descending milliseconds, that is by ascending negated milliseconds. When some
  timestamp is \<open>NaN\<close>, the comparator returns \<open>NaN\<close> for every pair with that row,
  and ECMAScript leaves the resulting order to the engine: the model takes it from
  the parameter \<open>nansort\<close>, the engine's result for such an array (some
  rearrangement of it; nothing below depends on which).
\<close>

definition sort_desc :: "(string \<Rightarrow> int option) \<Rightarrow> (LockedRow list \<Rightarrow> LockedRow list) \<Rightarrow> LockedRow list \<Rightarrow> LockedRow list" where
  "sort_desc parse nansort g =
     (if list_all (\<lambda>r. created_ms parse r \<noteq> None) g
      then sort_key (\<lambda>r. - millis parse r) g
      else nansort g)"

text \<open>
  The callback of \<open>Object.values(byNfc).forEach\<close>, returning the ids it pushes:
  \<^verbatim>\<open>if (rows.length <= 1) return;
  rows.sort(...);
  rows.slice(0, rows.length - 1).forEach((r) => r.id && idsToDelete.push(r.id));\<close>
\<close>

definition group_ids :: "(string \<Rightarrow> int option) \<Rightarrow> (LockedRow list \<Rightarrow> LockedRow list) \<Rightarrow> LockedRow list \<Rightarrow> string list" where
  "group_ids parse nansort g =
     (if length g \<le> 1 then []
      else filter (\<lambda>i. i \<noteq> []) (map l_id (butlast (sort_desc parse nansort g))))"

text \<open>The ids marked for deletion, or the exception of the grouping pass.\<close>

definition idsToDelete :: "(string \<Rightarrow> int option) \<Rightarrow> (LockedRow list \<Rightarrow> LockedRow list) \<Rightarrow> LockedRow list option \<Rightarrow> js_error + string list" where
  "idsToDelete parse nansort lockedRows =
     (case byNfc lockedRows of
        Inl e \<Rightarrow> Inl e
      | Inr m \<Rightarrow> Inr (concat (map (\<lambda>(k, g). group_ids parse nansort g) m)))"

text \<open>
  The row a group keeps: the last one of the sorted array, the only index that
  \<open>slice(0, rows.length - 1)\<close> leaves out.
\<close>

definition kept :: "(string \<Rightarrow> int option) \<Rightarrow> (LockedRow list \<Rightarrow> LockedRow list) \<Rightarrow> LockedRow list \<Rightarrow> LockedRow" where
  "kept parse nansort g = last (sort_desc parse nansort g)"

text \<open>The members of a row's group, in the order they were read.\<close>

definition group_of :: "string \<Rightarrow> LockedRow list \<Rightarrow> LockedRow list" where
  "group_of k lockedRows = filter (\<lambda>r. nfc_key r = k) lockedRows"

text \<open>
  What \<open>byNfc[k]\<close> holds as own property after a pass over the rows \<open>rs\<close> that did
  not throw: nothing for a key no row has, else the rows with that key in the order
  they were read.
\<close>

definition groups_of :: "LockedRow list \<Rightarrow> string \<Rightarrow> LockedRow list option" where
  "groups_of rs k = (if k \<in> nfc_key ` set rs then Some (group_of k rs) else None)"

text \<open>
  The batches: \<open>for (let i = 0; i < idsToDelete.length; i += chunkSize)\<close> with
  \<open>chunkSize = 500\<close> and \<open>chunk = idsToDelete.slice(i, i + chunkSize)\<close>.
\<close>

function chunks_from :: "nat \<Rightarrow> string list \<Rightarrow> string list list" where
  "chunks_from i ids =
     (if i < length ids then take 500 (drop i ids) # chunks_from (i + 500) ids else [])"
  by pat_completeness auto
termination
  by (relation "measure (\<lambda>(i, ids). length ids - i)") auto

declare chunks_from.simps [simp del]

text \<open>
  The delete requests are sent one batch after the other; \<open>lockedDel\<close> gives the error
  the backend returns for a batch, if any. The first error is thrown, which ends the
  loop: the result is the batches deleted so far and the error that stopped it.
\<close>

fun send_deletes :: "(string list \<Rightarrow> js_error option) \<Rightarrow> string list list \<Rightarrow> string list list \<times> js_error option" where
  "send_deletes lockedDel [] = ([], None)"
| "send_deletes lockedDel (c # cs) =
     (case lockedDel c of
        Some e \<Rightarrow> ([], Some e)
      | None \<Rightarrow> (case send_deletes lockedDel cs of (sent, r) \<Rightarrow> (c # sent, r)))"

text \<open>
  Step 2 of \<open>handleCleanup\<close>, from the settled read of \<open>lockeddata\<close>: a failed read
  throws before anything is deleted, and so does the grouping pass when a key names
  an inherited member; otherwise the marked ids are deleted in batches
  (\<open>if (idsToDelete.length > 0)\<close> guards the loop). Every exception ends in the
  \<open>catch\<close> of \<open>handleCleanup\<close>, which only sets the status text. Step 1, which
  empties the table \<open>currentdata\<close>, runs before step 2 and reads nothing of
  \<open>lockeddata\<close>; when step 1 throws, step 2 does not start.
\<close>

definition cleanup_locked :: "(string \<Rightarrow> int option) \<Rightarrow> (LockedRow list \<Rightarrow> LockedRow list) \<Rightarrow> (string list \<Rightarrow> js_error option) \<Rightarrow> LockedRow list reply \<Rightarrow> string list list \<times> js_error option" where
  "cleanup_locked parse nansort lockedDel rep =
     (case rep of
        Rejected e \<Rightarrow> ([], Some e)
      | Reply d (Some e) \<Rightarrow> ([], Some e)
      | Reply d None \<Rightarrow>
          (case idsToDelete parse nansort d of
             Inl e \<Rightarrow> ([], Some e)
           | Inr ids \<Rightarrow>
               (if length ids > 0 then send_deletes lockedDel (chunks_from 0 ids)
                else ([], None))))"

text \<open>The ids of the rows the backend was asked to delete, and did.\<close>

definition deleted_ids :: "(string \<Rightarrow> int option) \<Rightarrow> (LockedRow list \<Rightarrow> LockedRow list) \<Rightarrow> (string list \<Rightarrow> js_error option) \<Rightarrow> LockedRow list reply \<Rightarrow> string list" where
  "deleted_ids parse nansort lockedDel rep =
     concat (fst (cleanup_locked parse nansort lockedDel rep))"

section \<open>Properties of the gallery reconciler\<close>

subsection \<open>Ids stay pairwise distinct\<close>

lemma cleaned_ids:
  "map u_id (cleaned d) =
     map u_id (filter (\<lambda>r. truthy (u_image_url r)) (case d of None \<Rightarrow> [] | Some rs \<Rightarrow> rs))"
  by (simp add: cleaned_def comp_def)

lemma distinct_ids_filter: "distinct (map u_id rs) \<Longrightarrow> distinct (map u_id (filter P rs))"
  by (simp add: distinct_map_filter)

lemma distinct_ids_take: "distinct (map u_id rs) \<Longrightarrow> distinct (map u_id (take n rs))"
  by (simp add: take_map [symmetric])

lemma cleaned_distinct: "distinct (map u_id rs) \<Longrightarrow> distinct (map u_id (cleaned (Some rs)))"
  by (simp add: cleaned_ids distinct_ids_filter)

lemma cleaned_None: "cleaned None = []"
  by (simp add: cleaned_def)

lemma cleaned_fetched_distinct:
  "fetched_distinct (FETCHED (Reply d None)) \<Longrightarrow> distinct (map u_id (cleaned d))"
  by (cases d) (simp_all add: cleaned_distinct cleaned_None)

lemma onInsert_distinct:
  "distinct (map u_id prev) \<Longrightarrow> distinct (map u_id (onInsert newRow prev))"
  by (auto simp: onInsert_def withoutDup_def distinct_ids_filter)

lemma onInsert16_distinct:
  assumes "distinct (map u_id prev)"
  shows "distinct (map u_id (onInsert16 newRow prev))"
proof -
  have "distinct (map u_id (newRow # withoutDup newRow prev))"
    using assms by (auto simp: withoutDup_def distinct_ids_filter)
  then have "distinct (map u_id (take 16 (newRow # withoutDup newRow prev)))"
    by (rule distinct_ids_take)
  with assms show ?thesis by (simp add: onInsert16_def)
qed

lemma onUpdate_ids: "map u_id (onUpdate updated prev) = map u_id prev"
  by (induction prev) (simp_all add: onUpdate_def merge_row_def)

lemma onDelete_distinct:
  "distinct (map u_id prev) \<Longrightarrow> distinct (map u_id (onDelete deleted prev))"
  by (simp add: onDelete_def distinct_ids_filter)

lemma fetchImages_distinct:
  "fetched_distinct (FETCHED rep) \<Longrightarrow> distinct (map u_id (rows st))
     \<Longrightarrow> distinct (map u_id (rows (fetchImages rep st)))"
  by (auto simp: fetchImages_def cleaned_fetched_distinct split: option.splits reply.splits)

lemma fetchImages16_distinct:
  "fetched_distinct (FETCHED rep) \<Longrightarrow> distinct (map u_id (rows16 st))
     \<Longrightarrow> distinct (map u_id (rows16 (fetchImages16 rep st)))"
  by (auto simp: fetchImages16_def cleaned_fetched_distinct distinct_ids_take
        split: option.splits reply.splits)

lemma step_distinct:
  "fetched_distinct e \<Longrightarrow> distinct (map u_id (rows st))
     \<Longrightarrow> distinct (map u_id (rows (step e st)))"
  by (cases e)
    (simp_all add: fetchImages_distinct onInsert_distinct onUpdate_ids onDelete_distinct)

lemma step16_distinct:
  "fetched_distinct e \<Longrightarrow> distinct (map u_id (rows16 st))
     \<Longrightarrow> distinct (map u_id (rows16 (step16 e st)))"
  by (cases e)
    (simp_all add: fetchImages16_distinct onInsert16_distinct onUpdate_ids onDelete_distinct)

lemma run_distinct:
  "list_all fetched_distinct evs \<Longrightarrow> distinct (map u_id (rows st))
     \<Longrightarrow> distinct (map u_id (rows (run evs st)))"
  unfolding run_def by (induction evs arbitrary: st) (simp_all add: step_distinct)

lemma run16_distinct:
  "list_all fetched_distinct evs \<Longrightarrow> distinct (map u_id (rows16 st))
     \<Longrightarrow> distinct (map u_id (rows16 (run16 evs st)))"
  unfolding run16_def by (induction evs arbitrary: st) (simp_all add: step16_distinct)

text \<open>
  Claim C1. Start from the empty collection and apply any sequence of settled bulk
  loads and live insert, update and delete events, where every successful load
  returns rows with pairwise distinct ids. Then no two records of the collection
  share an id, in the unbounded variant and in the bounded one.
\<close>

theorem gallery_ids_distinct:
  assumes "list_all fetched_distinct evs"
  shows "distinct (map u_id (rows (run evs App_init)))
       \<and> distinct (map u_id (rows16 (run16 evs App16_init)))"
proof -
  have "distinct (map u_id (rows App_init))"
    by (simp add: App_init_def)
  moreover have "distinct (map u_id (rows16 App16_init))"
    by (simp add: App16_init_def)
  ultimately show ?thesis
    using assms by (simp add: run_distinct run16_distinct)
qed

theorem gallery_ids_distinct_witness:
  "list_all fetched_distinct
     [INSERT \<lparr>u_id = ''a'', u_image_url = Some ''u0'', u_created_at = None\<rparr>,
      FETCHED (Reply (Some [\<lparr>u_id = ''a'', u_image_url = Some ''u1'', u_created_at = None\<rparr>,
                            \<lparr>u_id = ''b'', u_image_url = Some ''u2'', u_created_at = None\<rparr>]) None),
      INSERT \<lparr>u_id = ''b'', u_image_url = Some ''u3'', u_created_at = None\<rparr>,
      UPDATE \<lparr>u_id = ''a'', u_image_url = Some ''u4'', u_created_at = None\<rparr>,
      DELETE \<lparr>u_id = ''c'', u_image_url = None, u_created_at = None\<rparr>]
   \<and> distinct (map u_id (rows (run
     [INSERT \<lparr>u_id = ''a'', u_image_url = Some ''u0'', u_created_at = None\<rparr>,
      FETCHED (Reply (Some [\<lparr>u_id = ''a'', u_image_url = Some ''u1'', u_created_at = None\<rparr>,
                            \<lparr>u_id = ''b'', u_image_url = Some ''u2'', u_created_at = None\<rparr>]) None),
      INSERT \<lparr>u_id = ''b'', u_image_url = Some ''u3'', u_created_at = None\<rparr>,
      UPDATE \<lparr>u_id = ''a'', u_image_url = Some ''u4'', u_created_at = None\<rparr>,
      DELETE \<lparr>u_id = ''c'', u_image_url = None, u_created_at = None\<rparr>] App_init)))
   \<and> distinct (map u_id (rows16 (run16
     [INSERT \<lparr>u_id = ''a'', u_image_url = Some ''u0'', u_created_at = None\<rparr>,
      FETCHED (Reply (Some [\<lparr>u_id = ''a'', u_image_url = Some ''u1'', u_created_at = None\<rparr>,
                            \<lparr>u_id = ''b'', u_image_url = Some ''u2'', u_created_at = None\<rparr>]) None),
      INSERT \<lparr>u_id = ''b'', u_image_url = Some ''u3'', u_created_at = None\<rparr>,
      UPDATE \<lparr>u_id = ''a'', u_image_url = Some ''u4'', u_created_at = None\<rparr>,
      DELETE \<lparr>u_id = ''c'', u_image_url = None, u_created_at = None\<rparr>] App16_init)))"
proof -
  have h: "list_all fetched_distinct
     [INSERT \<lparr>u_id = ''a'', u_image_url = Some ''u0'', u_created_at = None\<rparr>,
      FETCHED (Reply (Some [\<lparr>u_id = ''a'', u_image_url = Some ''u1'', u_created_at = None\<rparr>,
                            \<lparr>u_id = ''b'', u_image_url = Some ''u2'', u_created_at = None\<rparr>]) None),
      INSERT \<lparr>u_id = ''b'', u_image_url = Some ''u3'', u_created_at = None\<rparr>,
      UPDATE \<lparr>u_id = ''a'', u_image_url = Some ''u4'', u_created_at = None\<rparr>,
      DELETE \<lparr>u_id = ''c'', u_image_url = None, u_created_at = None\<rparr>]"
    by simp
  show ?thesis
    using h gallery_ids_distinct [OF h] by simp
qed

subsection \<open>Bounded insert: upsert by id, sixteen at most\<close>

lemma take_cons_take_append: "take n (x # take n A @ R) = take n (x # A @ R)"
  by (cases n) (auto simp: min_def take_Cons')

lemma filter_ids_fresh:
  "u_id r \<notin> set (map u_id A) \<Longrightarrow> filter (\<lambda>x. u_id x \<noteq> u_id r) A = A"
  by (induction A) auto

text \<open>
  After any non-empty run of inserts with present image urls and distinct ids, the
  collection starts with the inserted rows, latest first, cut at sixteen.
\<close>

lemma insert_all16_prefix:
  "rs \<noteq> [] \<Longrightarrow> list_all (\<lambda>r. truthy (u_image_url r)) rs \<Longrightarrow> distinct (map u_id rs)
     \<Longrightarrow> \<exists>rest. foldl (\<lambda>s r. onInsert16 r s) prev rs = take 16 (rev rs @ rest)"
proof (induction rs rule: rev_induct)
  case Nil
  then show ?case by simp
next
  case (snoc r rs)
  have t: "truthy (u_image_url r)"
    using snoc.prems(2) by simp
  show ?case
  proof (cases "rs = []")
    case True
    have "foldl (\<lambda>s r. onInsert16 r s) prev (rs @ [r])
            = take 16 (rev (rs @ [r]) @ withoutDup r prev)"
      using t True by (simp add: onInsert16_def)
    then show ?thesis by blast
  next
    case False
    with snoc obtain rest
      where IH: "foldl (\<lambda>s r. onInsert16 r s) prev rs = take 16 (rev rs @ rest)"
      by auto
    have fresh: "u_id r \<notin> set (map u_id (take 16 (rev rs)))"
      using snoc.prems(3) by (auto dest: in_set_takeD)
    let ?R = "filter (\<lambda>x. u_id x \<noteq> u_id r) (take (16 - length (rev rs)) rest)"
    have "foldl (\<lambda>s r. onInsert16 r s) prev (rs @ [r])
            = onInsert16 r (take 16 (rev rs @ rest))"
      by (simp add: IH)
    also have "\<dots> = take 16 (r # filter (\<lambda>x. u_id x \<noteq> u_id r)
                                 (take 16 (rev rs) @ take (16 - length (rev rs)) rest))"
      using t by (simp add: onInsert16_def withoutDup_def)
    also have "\<dots> = take 16 (r # take 16 (rev rs) @ ?R)"
      using filter_ids_fresh [OF fresh] by simp
    also have "\<dots> = take 16 (r # rev rs @ ?R)"
      by (rule take_cons_take_append)
    finally have "foldl (\<lambda>s r. onInsert16 r s) prev (rs @ [r])
                    = take 16 (rev (rs @ [r]) @ ?R)"
      by simp
    then show ?thesis by blast
  qed
qed

lemma run16_inserts:
  "rows16 (run16 (map INSERT rs) st) = foldl (\<lambda>s r. onInsert16 r s) (rows16 st) rs"
  unfolding run16_def by (induction rs arbitrary: st) simp_all

lemma insert_all16_latest:
  assumes "list_all (\<lambda>r. truthy (u_image_url r)) rs"
    and "distinct (map u_id rs)"
    and "16 \<le> length rs"
  shows "foldl (\<lambda>s r. onInsert16 r s) prev rs = take 16 (rev rs)"
proof -
  from assms(3) have "rs \<noteq> []"
    by auto
  from insert_all16_prefix [OF this assms(1,2)] obtain rest
    where "foldl (\<lambda>s r. onInsert16 r s) prev rs = take 16 (rev rs @ rest)"
    by blast
  with assms(3) show ?thesis
    by simp
qed

lemma truthy_nonempty: "v \<noteq> None \<Longrightarrow> v \<noteq> Some [] \<Longrightarrow> truthy v"
  by (cases v) (simp_all add: truthy_def)

text \<open>
  Claim C2, as stated, fails: the handler tests the image url for truthiness, so a
  live insert of a record whose image url is present but the empty string is
  ignored. The record with its id stays in the collection and the new record is not
  put in front; inserted into the empty collection, such records leave it empty.
\<close>

theorem empty_url_insert_ignored:
  "u_image_url \<lparr>u_id = ''b'', u_image_url = Some '''', u_created_at = None\<rparr> \<noteq> None
   \<and> onInsert16 \<lparr>u_id = ''b'', u_image_url = Some '''', u_created_at = None\<rparr>
        [\<lparr>u_id = ''a'', u_image_url = Some ''ua'', u_created_at = None\<rparr>,
         \<lparr>u_id = ''b'', u_image_url = Some ''ub'', u_created_at = None\<rparr>]
      = [\<lparr>u_id = ''a'', u_image_url = Some ''ua'', u_created_at = None\<rparr>,
         \<lparr>u_id = ''b'', u_image_url = Some ''ub'', u_created_at = None\<rparr>]
   \<and> rows16 (run16 [INSERT \<lparr>u_id = ''b'', u_image_url = Some '''', u_created_at = None\<rparr>,
                      INSERT \<lparr>u_id = ''c'', u_image_url = Some '''', u_created_at = None\<rparr>]
               App16_init) = []"
  by (simp add: onInsert16_def truthy_def run16_def App16_init_def)

text \<open>
  Claim C2, amended. In the bounded variant a live insert of a record whose image url
  is present and not the empty string removes every record with the same id, puts
  the new record in front and keeps the first 16 entries; a live insert of a record
  whose image url is the empty string leaves the collection as it was. Hence after
  sixteen or more inserts (so also after more than 16) of records with non-empty
  image urls and pairwise distinct ids, from any state, the collection is exactly
  the 16 latest inserted records, latest first: it has size 16 and its ids are the
  16 most recently inserted ones.
\<close>

theorem bounded_insert_upsert:
  "(u_image_url newRow \<noteq> None \<and> u_image_url newRow \<noteq> Some [] \<longrightarrow>
      onInsert16 newRow prev = take 16 (newRow # filter (\<lambda>r. u_id r \<noteq> u_id newRow) prev))
   \<and> (u_image_url newRow = Some [] \<longrightarrow> onInsert16 newRow prev = prev)
   \<and> (list_all (\<lambda>r. u_image_url r \<noteq> None \<and> u_image_url r \<noteq> Some []) rs
        \<and> distinct (map u_id rs) \<and> 16 \<le> length rs \<longrightarrow>
        rows16 (run16 (map INSERT rs) st) = take 16 (rev rs)
      \<and> length (rows16 (run16 (map INSERT rs) st)) = 16
      \<and> map u_id (rows16 (run16 (map INSERT rs) st)) = take 16 (rev (map u_id rs)))"
proof (intro conjI impI)
  assume "u_image_url newRow \<noteq> None \<and> u_image_url newRow \<noteq> Some []"
  then have "truthy (u_image_url newRow)"
    by (simp add: truthy_nonempty)
  then show "onInsert16 newRow prev
               = take 16 (newRow # filter (\<lambda>r. u_id r \<noteq> u_id newRow) prev)"
    by (simp add: onInsert16_def withoutDup_def)
next
  assume "u_image_url newRow = Some []"
  then show "onInsert16 newRow prev = prev"
    by (simp add: onInsert16_def truthy_def)
next
  assume h: "list_all (\<lambda>r. u_image_url r \<noteq> None \<and> u_image_url r \<noteq> Some []) rs
               \<and> distinct (map u_id rs) \<and> 16 \<le> length rs"
  then have t: "list_all (\<lambda>r. truthy (u_image_url r)) rs"
    by (simp add: list_all_iff truthy_nonempty)
  with h show a: "rows16 (run16 (map INSERT rs) st) = take 16 (rev rs)"
    by (simp add: run16_inserts insert_all16_latest)
  from h show "length (rows16 (run16 (map INSERT rs) st)) = 16"
    by (simp add: a)
  show "map u_id (rows16 (run16 (map INSERT rs) st)) = take 16 (rev (map u_id rs))"
    by (simp add: a take_map rev_map)
qed

text \<open>
  The witness inserts 17 records with the ids \<open>x\<close>, \<open>xx\<close>, ... into a collection
  that already holds \<open>xx\<close>: the first inserted id \<open>x\<close> is the one that is gone.
\<close>

theorem bounded_insert_upsert_witness:
  "u_image_url \<lparr>u_id = ''b'', u_image_url = Some ''new'', u_created_at = None\<rparr> \<noteq> None
   \<and> u_image_url \<lparr>u_id = ''b'', u_image_url = Some ''new'', u_created_at = None\<rparr> \<noteq> Some []
   \<and> onInsert16 \<lparr>u_id = ''b'', u_image_url = Some ''new'', u_created_at = None\<rparr>
        [\<lparr>u_id = ''a'', u_image_url = Some ''ua'', u_created_at = None\<rparr>,
         \<lparr>u_id = ''b'', u_image_url = Some ''ub'', u_created_at = None\<rparr>]
      = [\<lparr>u_id = ''b'', u_image_url = Some ''new'', u_created_at = None\<rparr>,
         \<lparr>u_id = ''a'', u_image_url = Some ''ua'', u_created_at = None\<rparr>]
   \<and> list_all (\<lambda>r. u_image_url r \<noteq> None \<and> u_image_url r \<noteq> Some [])
        (map (\<lambda>n. \<lparr>u_id = replicate n CHR ''x'', u_image_url = Some ''u'', u_created_at = None\<rparr>) [1..<18])
   \<and> distinct (map u_id
        (map (\<lambda>n. \<lparr>u_id = replicate n CHR ''x'', u_image_url = Some ''u'', u_created_at = None\<rparr>) [1..<18]))
   \<and> 16 \<le> length
        (map (\<lambda>n. \<lparr>u_id = replicate n CHR ''x'', u_image_url = Some ''u'', u_created_at = None\<rparr>) [1..<18])
   \<and> length (rows16 (run16 (map INSERT
        (map (\<lambda>n. \<lparr>u_id = replicate n CHR ''x'', u_image_url = Some ''u'', u_created_at = None\<rparr>) [1..<18]))
        (App16_init\<lparr>rows16 := [\<lparr>u_id = ''xx'', u_image_url = Some ''old'', u_created_at = None\<rparr>]\<rparr>))) = 16
   \<and> map u_id (rows16 (run16 (map INSERT
        (map (\<lambda>n. \<lparr>u_id = replicate n CHR ''x'', u_image_url = Some ''u'', u_created_at = None\<rparr>) [1..<18]))
        (App16_init\<lparr>rows16 := [\<lparr>u_id = ''xx'', u_image_url = Some ''old'', u_created_at = None\<rparr>]\<rparr>)))
      = map (\<lambda>n. replicate n CHR ''x'') (rev [2..<18])"
proof -
  let ?new = "\<lparr>u_id = ''b'', u_image_url = Some ''new'', u_created_at = None\<rparr>"
  let ?prev = "[\<lparr>u_id = ''a'', u_image_url = Some ''ua'', u_created_at = None\<rparr>,
                \<lparr>u_id = ''b'', u_image_url = Some ''ub'', u_created_at = None\<rparr>]"
  let ?rs = "map (\<lambda>n. \<lparr>u_id = replicate n CHR ''x'', u_image_url = Some ''u'', u_created_at = None\<rparr>) [1..<18]"
  let ?st = "App16_init\<lparr>rows16 := [\<lparr>u_id = ''xx'', u_image_url = Some ''old'', u_created_at = None\<rparr>]\<rparr>"
  have t: "u_image_url ?new \<noteq> None \<and> u_image_url ?new \<noteq> Some []"
    by simp
  have h: "list_all (\<lambda>r. u_image_url r \<noteq> None \<and> u_image_url r \<noteq> Some []) ?rs
         \<and> distinct (map u_id ?rs) \<and> 16 \<le> length ?rs"
    by code_simp
  have e: "take 16 (rev (map u_id ?rs)) = map (\<lambda>n. replicate n CHR ''x'') (rev [2..<18])"
    by code_simp
  from bounded_insert_upsert [of ?new ?prev ?rs ?st] t h
  have "onInsert16 ?new ?prev = take 16 (?new # filter (\<lambda>r. u_id r \<noteq> u_id ?new) ?prev)"
    and "length (rows16 (run16 (map INSERT ?rs) ?st)) = 16"
    and "map u_id (rows16 (run16 (map INSERT ?rs) ?st)) = take 16 (rev (map u_id ?rs))"
    by blast+
  with t h e show ?thesis
    by simp
qed

subsection \<open>Live update: merge in place, never insert\<close>

lemma onUpdate_unknown:
  "\<forall>r\<in>set prev. u_id r \<noteq> u_id updated \<Longrightarrow> onUpdate updated prev = prev"
  by (induction prev) (simp_all add: onUpdate_def)

lemma onUpdate_nth:
  "i < length prev \<Longrightarrow>
     onUpdate updated prev ! i =
       (if u_id (prev ! i) = u_id updated then merge_row (prev ! i) updated else prev ! i)"
  by (simp add: onUpdate_def)

text \<open>
  Claim C6. A live update whose id matches no record leaves the component state as
  it is, in both variants, so the updated row is not inserted. In general the update
  keeps the length of the collection and the id at every position, and the record at
  each position with the event's id is replaced by the shallow merge: the id and the
  image url of the event, and the event's \<open>created_at\<close> when the event has that key,
  else the record's own.
\<close>

theorem live_update_merges_in_place:
  "((\<forall>r\<in>set (rows st). u_id r \<noteq> u_id updated) \<longrightarrow> step (UPDATE updated) st = st)
   \<and> ((\<forall>r\<in>set (rows16 st16). u_id r \<noteq> u_id updated) \<longrightarrow> step16 (UPDATE updated) st16 = st16)
   \<and> rows (step (UPDATE updated) st) = onUpdate updated (rows st)
   \<and> rows16 (step16 (UPDATE updated) st16) = onUpdate updated (rows16 st16)
   \<and> length (onUpdate updated prev) = length prev
   \<and> map u_id (onUpdate updated prev) = map u_id prev
   \<and> (\<forall>i<length prev.
        onUpdate updated prev ! i =
          (if u_id (prev ! i) = u_id updated then merge_row (prev ! i) updated else prev ! i))
   \<and> u_id (merge_row r updated) = u_id updated
   \<and> u_image_url (merge_row r updated) = u_image_url updated
   \<and> u_created_at (merge_row r updated) =
        (case u_created_at updated of None \<Rightarrow> u_created_at r | Some v \<Rightarrow> Some v)"
proof (intro conjI impI allI)
  assume "\<forall>r\<in>set (rows st). u_id r \<noteq> u_id updated"
  then show "step (UPDATE updated) st = st"
    by (simp add: onUpdate_unknown)
next
  assume "\<forall>r\<in>set (rows16 st16). u_id r \<noteq> u_id updated"
  then show "step16 (UPDATE updated) st16 = st16"
    by (simp add: onUpdate_unknown)
next
  show "length (onUpdate updated prev) = length prev"
    by (simp add: onUpdate_def)
next
  show "map u_id (onUpdate updated prev) = map u_id prev"
    by (rule onUpdate_ids)
next
  fix i
  assume "i < length prev"
  then show "onUpdate updated prev ! i =
          (if u_id (prev ! i) = u_id updated then merge_row (prev ! i) updated else prev ! i)"
    by (rule onUpdate_nth)
qed (simp_all add: merge_row_def)

text \<open>
  The witness: an update of the unknown id \<open>z\<close> changes nothing; an update of \<open>b\<close>
  without a \<open>created_at\<close> key rewrites the second record where it stands and keeps
  its timestamp.
\<close>

theorem live_update_merges_in_place_witness:
  "step (UPDATE \<lparr>u_id = ''z'', u_image_url = Some ''uz'', u_created_at = None\<rparr>)
     (App_init\<lparr>rows := [\<lparr>u_id = ''a'', u_image_url = Some ''ua'', u_created_at = Some None\<rparr>,
                        \<lparr>u_id = ''b'', u_image_url = Some ''ub'', u_created_at = Some (Some ''t'')\<rparr>]\<rparr>)
     = App_init\<lparr>rows := [\<lparr>u_id = ''a'', u_image_url = Some ''ua'', u_created_at = Some None\<rparr>,
                        \<lparr>u_id = ''b'', u_image_url = Some ''ub'', u_created_at = Some (Some ''t'')\<rparr>]\<rparr>
   \<and> step16 (UPDATE \<lparr>u_id = ''z'', u_image_url = Some ''uz'', u_created_at = None\<rparr>)
     (App16_init\<lparr>rows16 := [\<lparr>u_id = ''a'', u_image_url = Some ''ua'', u_created_at = Some None\<rparr>]\<rparr>)
     = App16_init\<lparr>rows16 := [\<lparr>u_id = ''a'', u_image_url = Some ''ua'', u_created_at = Some None\<rparr>]\<rparr>
   \<and> onUpdate \<lparr>u_id = ''b'', u_image_url = Some ''new'', u_created_at = None\<rparr>
       [\<lparr>u_id = ''a'', u_image_url = Some ''ua'', u_created_at = Some None\<rparr>,
        \<lparr>u_id = ''b'', u_image_url = Some ''ub'', u_created_at = Some (Some ''t'')\<rparr>] ! 1
     = \<lparr>u_id = ''b'', u_image_url = Some ''new'', u_created_at = Some (Some ''t'')\<rparr>"
proof -
  let ?z = "\<lparr>u_id = ''z'', u_image_url = Some ''uz'', u_created_at = None\<rparr>"
  let ?b = "\<lparr>u_id = ''b'', u_image_url = Some ''new'', u_created_at = None\<rparr>"
  let ?prev = "[\<lparr>u_id = ''a'', u_image_url = Some ''ua'', u_created_at = Some None\<rparr>,
                \<lparr>u_id = ''b'', u_image_url = Some ''ub'', u_created_at = Some (Some ''t'')\<rparr>]"
  let ?st = "App_init\<lparr>rows := ?prev\<rparr>"
  let ?st16 = "App16_init\<lparr>rows16 := [\<lparr>u_id = ''a'', u_image_url = Some ''ua'', u_created_at = Some None\<rparr>]\<rparr>"
  have h: "\<forall>r\<in>set (rows ?st). u_id r \<noteq> u_id ?z"
    by simp
  have h16: "\<forall>r\<in>set (rows16 ?st16). u_id r \<noteq> u_id ?z"
    by simp
  have i: "(1::nat) < length ?prev"
    by simp
  from live_update_merges_in_place [of ?st ?z ?st16] h h16
  have a: "step (UPDATE ?z) ?st = ?st" and b: "step16 (UPDATE ?z) ?st16 = ?st16"
    by blast+
  from live_update_merges_in_place [of ?st ?b ?st16 ?prev] i
  have "onUpdate ?b ?prev ! 1 =
          (if u_id (?prev ! 1) = u_id ?b then merge_row (?prev ! 1) ?b else ?prev ! 1)"
    by blast
  then have c: "onUpdate ?b ?prev ! 1
                  = \<lparr>u_id = ''b'', u_image_url = Some ''new'', u_created_at = Some (Some ''t'')\<rparr>"
    by (simp add: merge_row_def)
  from a b c show ?thesis
    by simp
qed

subsection \<open>Records without an image url\<close>

lemma cleaned_truthy: "r \<in> set (cleaned d) \<Longrightarrow> truthy (u_image_url r)"
  by (auto simp: cleaned_def)

lemma truthy_iff: "truthy v \<longleftrightarrow> v \<noteq> None \<and> v \<noteq> Some []"
  by (cases v) (simp_all add: truthy_def)

lemma onInsert_falsy: "\<not> truthy (u_image_url newRow) \<Longrightarrow> onInsert newRow prev = prev"
  by (simp add: onInsert_def)

lemma onInsert16_falsy: "\<not> truthy (u_image_url newRow) \<Longrightarrow> onInsert16 newRow prev = prev"
  by (simp add: onInsert16_def)

text \<open>
  A property \<open>P\<close> of image urls that every truthy url has holds for all records of
  the collection, as long as the live updates carry urls with \<open>P\<close>.
\<close>

lemma onInsert_urls:
  "(\<And>v. truthy v \<Longrightarrow> P v) \<Longrightarrow> \<forall>r\<in>set prev. P (u_image_url r)
     \<Longrightarrow> \<forall>r\<in>set (onInsert newRow prev). P (u_image_url r)"
  by (auto simp: onInsert_def withoutDup_def)

lemma onInsert16_urls:
  "(\<And>v. truthy v \<Longrightarrow> P v) \<Longrightarrow> \<forall>r\<in>set prev. P (u_image_url r)
     \<Longrightarrow> \<forall>r\<in>set (onInsert16 newRow prev). P (u_image_url r)"
  by (auto simp: onInsert16_def withoutDup_def dest!: in_set_takeD)

lemma onUpdate_urls:
  "P (u_image_url updated) \<Longrightarrow> \<forall>r\<in>set prev. P (u_image_url r)
     \<Longrightarrow> \<forall>r\<in>set (onUpdate updated prev). P (u_image_url r)"
  by (auto simp: onUpdate_def merge_row_def)

lemma onDelete_urls:
  "\<forall>r\<in>set prev. P (u_image_url r) \<Longrightarrow> \<forall>r\<in>set (onDelete deleted prev). P (u_image_url r)"
  by (auto simp: onDelete_def)

lemma fetchImages_urls:
  "(\<And>v. truthy v \<Longrightarrow> P v) \<Longrightarrow> \<forall>r\<in>set (rows st). P (u_image_url r)
     \<Longrightarrow> \<forall>r\<in>set (rows (fetchImages rep st)). P (u_image_url r)"
  by (auto simp: fetchImages_def split: reply.splits option.splits dest: cleaned_truthy)

lemma fetchImages16_urls:
  "(\<And>v. truthy v \<Longrightarrow> P v) \<Longrightarrow> \<forall>r\<in>set (rows16 st). P (u_image_url r)
     \<Longrightarrow> \<forall>r\<in>set (rows16 (fetchImages16 rep st)). P (u_image_url r)"
  by (auto simp: fetchImages16_def split: reply.splits option.splits
        dest!: in_set_takeD dest: cleaned_truthy)

lemma step_urls:
  assumes "\<And>v. truthy v \<Longrightarrow> P v"
    and "\<And>u. e = UPDATE u \<Longrightarrow> P (u_image_url u)"
    and "\<forall>r\<in>set (rows st). P (u_image_url r)"
  shows "\<forall>r\<in>set (rows (step e st)). P (u_image_url r)"
proof (cases e)
  case (FETCHED rep)
  then show ?thesis using fetchImages_urls [of P st rep] assms(1,3) by simp
next
  case (INSERT newRow)
  then show ?thesis using onInsert_urls [of P "rows st" newRow] assms(1,3) by simp
next
  case (UPDATE u)
  then show ?thesis using onUpdate_urls [of P u "rows st"] assms(2,3) by simp
next
  case (DELETE d)
  then show ?thesis using onDelete_urls [of "rows st" P d] assms(3) by simp
qed

lemma step16_urls:
  assumes "\<And>v. truthy v \<Longrightarrow> P v"
    and "\<And>u. e = UPDATE u \<Longrightarrow> P (u_image_url u)"
    and "\<forall>r\<in>set (rows16 st). P (u_image_url r)"
  shows "\<forall>r\<in>set (rows16 (step16 e st)). P (u_image_url r)"
proof (cases e)
  case (FETCHED rep)
  then show ?thesis using fetchImages16_urls [of P st rep] assms(1,3) by simp
next
  case (INSERT newRow)
  then show ?thesis using onInsert16_urls [of P "rows16 st" newRow] assms(1,3) by simp
next
  case (UPDATE u)
  then show ?thesis using onUpdate_urls [of P u "rows16 st"] assms(2,3) by simp
next
  case (DELETE d)
  then show ?thesis using onDelete_urls [of "rows16 st" P d] assms(3) by simp
qed

lemma run_urls:
  assumes "\<And>v. truthy v \<Longrightarrow> P v"
    and "\<And>u. UPDATE u \<in> set evs \<Longrightarrow> P (u_image_url u)"
    and "\<forall>r\<in>set (rows st). P (u_image_url r)"
  shows "\<forall>r\<in>set (rows (run evs st)). P (u_image_url r)"
  using assms(2,3) unfolding run_def
proof (induction evs arbitrary: st)
  case Nil
  then show ?case by simp
next
  case (Cons e evs)
  have "\<forall>r\<in>set (rows (step e st)). P (u_image_url r)"
  proof (rule step_urls)
    show "\<And>v. truthy v \<Longrightarrow> P v"
      by (rule assms(1))
    show "\<And>u. e = UPDATE u \<Longrightarrow> P (u_image_url u)"
      using Cons.prems(1) by simp
    show "\<forall>r\<in>set (rows st). P (u_image_url r)"
      by (rule Cons.prems(2))
  qed
  moreover have "\<And>u. UPDATE u \<in> set evs \<Longrightarrow> P (u_image_url u)"
    using Cons.prems(1) by simp
  ultimately show ?case
    using Cons.IH [of "step e st"] by simp
qed

lemma run16_urls:
  assumes "\<And>v. truthy v \<Longrightarrow> P v"
    and "\<And>u. UPDATE u \<in> set evs \<Longrightarrow> P (u_image_url u)"
    and "\<forall>r\<in>set (rows16 st). P (u_image_url r)"
  shows "\<forall>r\<in>set (rows16 (run16 evs st)). P (u_image_url r)"
  using assms(2,3) unfolding run16_def
proof (induction evs arbitrary: st)
  case Nil
  then show ?case by simp
next
  case (Cons e evs)
  have "\<forall>r\<in>set (rows16 (step16 e st)). P (u_image_url r)"
  proof (rule step16_urls)
    show "\<And>v. truthy v \<Longrightarrow> P v"
      by (rule assms(1))
    show "\<And>u. e = UPDATE u \<Longrightarrow> P (u_image_url u)"
      using Cons.prems(1) by simp
    show "\<forall>r\<in>set (rows16 st). P (u_image_url r)"
      by (rule Cons.prems(2))
  qed
  moreover have "\<And>u. UPDATE u \<in> set evs \<Longrightarrow> P (u_image_url u)"
    using Cons.prems(1) by simp
  ultimately show ?case
    using Cons.IH [of "step16 e st"] by simp
qed

lemma update_presentD:
  "list_all update_present evs \<Longrightarrow> UPDATE u \<in> set evs \<Longrightarrow> u_image_url u \<noteq> None"
  by (induction evs) auto

lemma update_nonemptyD:
  "list_all update_nonempty evs \<Longrightarrow> UPDATE u \<in> set evs \<Longrightarrow> u_image_url u \<noteq> Some []"
  by (induction evs) auto

text \<open>
  Claim C8, as stated, fails: a live update that carries no image url overwrites the
  url of the record with its id, so a record with an absent image url appears in the
  collection.
\<close>

theorem absent_url_appears_by_update:
  "rows (run [INSERT \<lparr>u_id = ''a'', u_image_url = Some ''u'', u_created_at = None\<rparr>,
              UPDATE \<lparr>u_id = ''a'', u_image_url = None, u_created_at = None\<rparr>] App_init)
     = [\<lparr>u_id = ''a'', u_image_url = None, u_created_at = None\<rparr>]"
  by (simp add: run_def App_init_def onInsert_def onUpdate_def withoutDup_def truthy_def
        merge_row_def)

text \<open>
  Claim C8, amended. A live insert of a record with an absent image url leaves the
  collection as it was, in both variants; the initial load keeps no such row; and
  after any sequence of settled loads, inserts, deletes and of updates that carry an
  image url, no record of the collection has an absent image url.
\<close>

theorem absent_url_never_inserted:
  "(u_image_url newRow = None \<longrightarrow> onInsert newRow prev = prev \<and> onInsert16 newRow prev = prev)
   \<and> (\<forall>r\<in>set (cleaned d). u_image_url r \<noteq> None)
   \<and> (list_all update_present evs \<longrightarrow>
        (\<forall>r\<in>set (rows (run evs App_init)). u_image_url r \<noteq> None)
      \<and> (\<forall>r\<in>set (rows16 (run16 evs App16_init)). u_image_url r \<noteq> None))"
proof (intro conjI impI)
  assume "u_image_url newRow = None"
  then have "\<not> truthy (u_image_url newRow)"
    by (simp add: truthy_def)
  then show "onInsert newRow prev = prev" and "onInsert16 newRow prev = prev"
    by (simp_all add: onInsert_falsy onInsert16_falsy)
next
  show "\<forall>r\<in>set (cleaned d). u_image_url r \<noteq> None"
    using cleaned_truthy truthy_iff by blast
next
  assume h: "list_all update_present evs"
  show "\<forall>r\<in>set (rows (run evs App_init)). u_image_url r \<noteq> None"
    by (rule run_urls) (simp_all add: truthy_iff update_presentD [OF h] App_init_def)
  show "\<forall>r\<in>set (rows16 (run16 evs App16_init)). u_image_url r \<noteq> None"
    by (rule run16_urls) (simp_all add: truthy_iff update_presentD [OF h] App16_init_def)
qed

theorem absent_url_never_inserted_witness:
  "onInsert \<lparr>u_id = ''n'', u_image_url = None, u_created_at = None\<rparr>
       [\<lparr>u_id = ''a'', u_image_url = Some ''ua'', u_created_at = None\<rparr>]
     = [\<lparr>u_id = ''a'', u_image_url = Some ''ua'', u_created_at = None\<rparr>]
   \<and> onInsert16 \<lparr>u_id = ''n'', u_image_url = None, u_created_at = None\<rparr>
       [\<lparr>u_id = ''a'', u_image_url = Some ''ua'', u_created_at = None\<rparr>]
     = [\<lparr>u_id = ''a'', u_image_url = Some ''ua'', u_created_at = None\<rparr>]
   \<and> list_all update_present
       [FETCHED (Reply (Some [\<lparr>u_id = ''a'', u_image_url = Some ''ua'', u_created_at = None\<rparr>,
                              \<lparr>u_id = ''n'', u_image_url = None, u_created_at = None\<rparr>]) None),
        INSERT \<lparr>u_id = ''m'', u_image_url = None, u_created_at = None\<rparr>,
        UPDATE \<lparr>u_id = ''a'', u_image_url = Some ''ub'', u_created_at = None\<rparr>]
   \<and> list_all (\<lambda>r. u_image_url r \<noteq> None) (rows (run
       [FETCHED (Reply (Some [\<lparr>u_id = ''a'', u_image_url = Some ''ua'', u_created_at = None\<rparr>,
                              \<lparr>u_id = ''n'', u_image_url = None, u_created_at = None\<rparr>]) None),
        INSERT \<lparr>u_id = ''m'', u_image_url = None, u_created_at = None\<rparr>,
        UPDATE \<lparr>u_id = ''a'', u_image_url = Some ''ub'', u_created_at = None\<rparr>] App_init))
   \<and> map u_id (rows (run
       [FETCHED (Reply (Some [\<lparr>u_id = ''a'', u_image_url = Some ''ua'', u_created_at = None\<rparr>,
                              \<lparr>u_id = ''n'', u_image_url = None, u_created_at = None\<rparr>]) None),
        INSERT \<lparr>u_id = ''m'', u_image_url = None, u_created_at = None\<rparr>,
        UPDATE \<lparr>u_id = ''a'', u_image_url = Some ''ub'', u_created_at = None\<rparr>] App_init)) = [''a'']"
proof -
  let ?n = "\<lparr>u_id = ''n'', u_image_url = None, u_created_at = None\<rparr>"
  let ?prev = "[\<lparr>u_id = ''a'', u_image_url = Some ''ua'', u_created_at = None\<rparr>]"
  let ?evs = "[FETCHED (Reply (Some [\<lparr>u_id = ''a'', u_image_url = Some ''ua'', u_created_at = None\<rparr>,
                              \<lparr>u_id = ''n'', u_image_url = None, u_created_at = None\<rparr>]) None),
        INSERT \<lparr>u_id = ''m'', u_image_url = None, u_created_at = None\<rparr>,
        UPDATE \<lparr>u_id = ''a'', u_image_url = Some ''ub'', u_created_at = None\<rparr>]"
  have n: "u_image_url ?n = None"
    by simp
  have h: "list_all update_present ?evs"
    by simp
  from absent_url_never_inserted [of ?n ?prev None ?evs] n h
  have a: "onInsert ?n ?prev = ?prev" and b: "onInsert16 ?n ?prev = ?prev"
    and c: "\<forall>r\<in>set (rows (run ?evs App_init)). u_image_url r \<noteq> None"
    by blast+
  have d: "map u_id (rows (run ?evs App_init)) = [''a'']"
    by (simp add: run_def App_init_def fetchImages_def cleaned_def truthy_def onInsert_def
          onUpdate_def merge_row_def)
  from a b c d h show ?thesis
    by (simp add: list_all_iff)
qed

subsection \<open>The image url filter is a truthiness test\<close>

text \<open>
  Claim C9, as stated, fails in its last part: a live update that carries the empty
  string as image url writes it into the record with its id, so a record with an
  empty image url appears in the collection.
\<close>

theorem empty_url_appears_by_update:
  "rows (run [INSERT \<lparr>u_id = ''a'', u_image_url = Some ''u'', u_created_at = None\<rparr>,
              UPDATE \<lparr>u_id = ''a'', u_image_url = Some '''', u_created_at = None\<rparr>] App_init)
     = [\<lparr>u_id = ''a'', u_image_url = Some '''', u_created_at = None\<rparr>]"
  by (simp add: run_def App_init_def onInsert_def onUpdate_def withoutDup_def truthy_def
        merge_row_def)

text \<open>
  Claim C9, amended. The filter tests truthiness: an image url passes exactly when it
  is neither \<open>null\<close> nor the empty string. The initial load keeps, in order, exactly
  the rows whose url passes, so it drops a row with an empty url; a live insert of a
  record with an empty url leaves the collection as it was, in both variants; and
  after any sequence of settled loads, inserts, deletes and of updates that do not
  carry an empty url, no record of the collection has an empty image url.
\<close>

theorem falsy_url_filtered:
  "(truthy v \<longleftrightarrow> v \<noteq> None \<and> v \<noteq> Some [])
   \<and> map u_id (cleaned (Some rs))
       = map u_id (filter (\<lambda>r. u_image_url r \<noteq> None \<and> u_image_url r \<noteq> Some []) rs)
   \<and> (\<forall>r\<in>set (cleaned d). u_image_url r \<noteq> Some [])
   \<and> (u_image_url newRow = Some [] \<longrightarrow> onInsert newRow prev = prev \<and> onInsert16 newRow prev = prev)
   \<and> (list_all update_nonempty evs \<longrightarrow>
        (\<forall>r\<in>set (rows (run evs App_init)). u_image_url r \<noteq> Some [])
      \<and> (\<forall>r\<in>set (rows16 (run16 evs App16_init)). u_image_url r \<noteq> Some []))"
proof (intro conjI impI)
  show "truthy v \<longleftrightarrow> v \<noteq> None \<and> v \<noteq> Some []"
    by (rule truthy_iff)
next
  show "map u_id (cleaned (Some rs))
          = map u_id (filter (\<lambda>r. u_image_url r \<noteq> None \<and> u_image_url r \<noteq> Some []) rs)"
    by (simp add: cleaned_ids truthy_iff)
next
  show "\<forall>r\<in>set (cleaned d). u_image_url r \<noteq> Some []"
    using cleaned_truthy truthy_iff by blast
next
  assume "u_image_url newRow = Some []"
  then have "\<not> truthy (u_image_url newRow)"
    by (simp add: truthy_def)
  then show "onInsert newRow prev = prev" and "onInsert16 newRow prev = prev"
    by (simp_all add: onInsert_falsy onInsert16_falsy)
next
  assume h: "list_all update_nonempty evs"
  show "\<forall>r\<in>set (rows (run evs App_init)). u_image_url r \<noteq> Some []"
    by (rule run_urls) (simp_all add: truthy_iff update_nonemptyD [OF h] App_init_def)
  show "\<forall>r\<in>set (rows16 (run16 evs App16_init)). u_image_url r \<noteq> Some []"
    by (rule run16_urls) (simp_all add: truthy_iff update_nonemptyD [OF h] App16_init_def)
qed

theorem falsy_url_filtered_witness:
  "map u_id (cleaned (Some [\<lparr>u_id = ''a'', u_image_url = Some ''ua'', u_created_at = None\<rparr>,
                            \<lparr>u_id = ''e'', u_image_url = Some '''', u_created_at = None\<rparr>,
                            \<lparr>u_id = ''n'', u_image_url = None, u_created_at = None\<rparr>,
                            \<lparr>u_id = ''b'', u_image_url = Some ''ub'', u_created_at = None\<rparr>]))
     = [''a'', ''b'']
   \<and> onInsert \<lparr>u_id = ''e'', u_image_url = Some '''', u_created_at = None\<rparr>
       [\<lparr>u_id = ''a'', u_image_url = Some ''ua'', u_created_at = None\<rparr>]
     = [\<lparr>u_id = ''a'', u_image_url = Some ''ua'', u_created_at = None\<rparr>]
   \<and> onInsert16 \<lparr>u_id = ''e'', u_image_url = Some '''', u_created_at = None\<rparr>
       [\<lparr>u_id = ''a'', u_image_url = Some ''ua'', u_created_at = None\<rparr>]
     = [\<lparr>u_id = ''a'', u_image_url = Some ''ua'', u_created_at = None\<rparr>]
   \<and> list_all update_nonempty
       [INSERT \<lparr>u_id = ''e'', u_image_url = Some '''', u_created_at = None\<rparr>,
        INSERT \<lparr>u_id = ''a'', u_image_url = Some ''ua'', u_created_at = None\<rparr>,
        UPDATE \<lparr>u_id = ''a'', u_image_url = Some ''ub'', u_created_at = None\<rparr>]
   \<and> list_all (\<lambda>r. u_image_url r \<noteq> Some []) (rows16 (run16
       [INSERT \<lparr>u_id = ''e'', u_image_url = Some '''', u_created_at = None\<rparr>,
        INSERT \<lparr>u_id = ''a'', u_image_url = Some ''ua'', u_created_at = None\<rparr>,
        UPDATE \<lparr>u_id = ''a'', u_image_url = Some ''ub'', u_created_at = None\<rparr>] App16_init))
   \<and> map u_id (rows16 (run16
       [INSERT \<lparr>u_id = ''e'', u_image_url = Some '''', u_created_at = None\<rparr>,
        INSERT \<lparr>u_id = ''a'', u_image_url = Some ''ua'', u_created_at = None\<rparr>,
        UPDATE \<lparr>u_id = ''a'', u_image_url = Some ''ub'', u_created_at = None\<rparr>] App16_init)) = [''a'']"
proof -
  let ?e = "\<lparr>u_id = ''e'', u_image_url = Some '''', u_created_at = None\<rparr>"
  let ?prev = "[\<lparr>u_id = ''a'', u_image_url = Some ''ua'', u_created_at = None\<rparr>]"
  let ?rs = "[\<lparr>u_id = ''a'', u_image_url = Some ''ua'', u_created_at = None\<rparr>,
              \<lparr>u_id = ''e'', u_image_url = Some '''', u_created_at = None\<rparr>,
              \<lparr>u_id = ''n'', u_image_url = None, u_created_at = None\<rparr>,
              \<lparr>u_id = ''b'', u_image_url = Some ''ub'', u_created_at = None\<rparr>]"
  let ?evs = "[INSERT \<lparr>u_id = ''e'', u_image_url = Some '''', u_created_at = None\<rparr>,
        INSERT \<lparr>u_id = ''a'', u_image_url = Some ''ua'', u_created_at = None\<rparr>,
        UPDATE \<lparr>u_id = ''a'', u_image_url = Some ''ub'', u_created_at = None\<rparr>]"
  have e: "u_image_url ?e = Some []"
    by simp
  have h: "list_all update_nonempty ?evs"
    by simp
  from falsy_url_filtered [of "Some ''ua''" ?rs None ?e ?prev ?evs] e h
  have a: "map u_id (cleaned (Some ?rs))
             = map u_id (filter (\<lambda>r. u_image_url r \<noteq> None \<and> u_image_url r \<noteq> Some []) ?rs)"
    and b: "onInsert ?e ?prev = ?prev" and c: "onInsert16 ?e ?prev = ?prev"
    and d: "\<forall>r\<in>set (rows16 (run16 ?evs App16_init)). u_image_url r \<noteq> Some []"
    by blast+
  have f: "map u_id (rows16 (run16 ?evs App16_init)) = [''a'']"
    by (simp add: run16_def App16_init_def truthy_def onInsert16_def withoutDup_def
          onUpdate_def merge_row_def)
  from a b c d f h show ?thesis
    by (simp add: list_all_iff)
qed

subsection \<open>A failed initial load\<close>

lemma failure_of_cases:
  "failure_of rep = Some e \<Longrightarrow> (\<exists>d. rep = Reply d (Some e)) \<or> rep = Rejected e"
  by (cases rep) auto

text \<open>
  Claim C5, as stated, fails for the bounded variant: its \<open>catch\<close> writes the error
  to the console only, so after a failed load nothing the user sees has changed and
  no error text is set.
\<close>

theorem bounded_load_failure_is_silent:
  "fetchImages16 (Rejected (JsError (Some ''boom''))) App16_init
     = App16_init\<lparr>console := [''boom'']\<rparr>
   \<and> statusMsg (fetchImages16 (Rejected (JsError (Some ''boom''))) App16_init) = []
   \<and> alerts (fetchImages16 (Rejected (JsError (Some ''boom''))) App16_init) = []"
  by (simp add: fetchImages16_def App16_init_def message_or_default_def)

text \<open>
  Claim C5, amended. When the initial load fails (the query returns an error or the
  request is rejected), the unbounded variant sets \<open>error\<close> to the error's message,
  or to the fixed default text when it has none, clears \<open>loading\<close> and leaves the
  collection as it was, which is empty when the load is the first thing to settle;
  the banner is rendered when that text is not empty, as the default text is. The
  bounded variant only logs the text to the console: its collection and everything
  it shows stay as they were.
\<close>

theorem load_failure:
  "(failure_of rep = Some e \<longrightarrow>
        error (fetchImages rep st) = Some (message_or_default e)
      \<and> (error_banner (fetchImages rep st) \<longleftrightarrow> message_or_default e \<noteq> [])
      \<and> loading (fetchImages rep st) = False
      \<and> rows (fetchImages rep st) = rows st
      \<and> rows (fetchImages rep App_init) = []
      \<and> fetchImages16 rep st16 = st16\<lparr>console := console st16 @ [message_or_default e]\<rparr>
      \<and> rows16 (fetchImages16 rep App16_init) = [])
   \<and> message_or_default (JsError None) \<noteq> []"
proof (intro conjI impI)
  assume "failure_of rep = Some e"
  then consider d where "rep = Reply d (Some e)" | "rep = Rejected e"
    using failure_of_cases by blast
  then have u: "fetchImages rep st = st\<lparr>error := Some (message_or_default e), loading := False\<rparr>"
    and i: "fetchImages rep App_init
              = App_init\<lparr>error := Some (message_or_default e), loading := False\<rparr>"
    and b: "fetchImages16 rep st16 = st16\<lparr>console := console st16 @ [message_or_default e]\<rparr>"
    and j: "fetchImages16 rep App16_init
              = App16_init\<lparr>console := console App16_init @ [message_or_default e]\<rparr>"
    by (cases; simp add: fetchImages_def fetchImages16_def)+
  show "error (fetchImages rep st) = Some (message_or_default e)"
    by (simp add: u)
  show "error_banner (fetchImages rep st) \<longleftrightarrow> message_or_default e \<noteq> []"
    by (simp add: u error_banner_def truthy_def)
  show "loading (fetchImages rep st) = False"
    by (simp add: u)
  show "rows (fetchImages rep st) = rows st"
    by (simp add: u)
  have "rows (fetchImages rep App_init) = rows App_init"
    by (simp add: i)
  then show "rows (fetchImages rep App_init) = []"
    by (simp add: App_init_def)
  show "fetchImages16 rep st16 = st16\<lparr>console := console st16 @ [message_or_default e]\<rparr>"
    by (rule b)
  have "rows16 (fetchImages16 rep App16_init) = rows16 App16_init"
    by (simp add: j)
  then show "rows16 (fetchImages16 rep App16_init) = []"
    by (simp add: App16_init_def)
next
  show "message_or_default (JsError None) \<noteq> []"
    by (simp add: message_or_default_def load_failed_text_def)
qed

theorem load_failure_witness:
  "failure_of (Reply (None :: UnlockedRow list option) (Some (JsError (Some ''permission denied''))))
     = Some (JsError (Some ''permission denied''))
   \<and> fetchImages (Reply None (Some (JsError (Some ''permission denied'')))) App_init
     = \<lparr>rows = [], loading = False, error = Some ''permission denied''\<rparr>
   \<and> error_banner (fetchImages (Reply None (Some (JsError (Some ''permission denied'')))) App_init)
   \<and> rows16 (fetchImages16 (Reply None (Some (JsError (Some ''permission denied'')))) App16_init) = []"
proof -
  let ?e = "JsError (Some ''permission denied'')"
  let ?rep = "Reply (None :: UnlockedRow list option) (Some ?e)"
  have h: "failure_of ?rep = Some ?e"
    by simp
  from load_failure [of ?rep ?e App_init App16_init] h
  have a: "error (fetchImages ?rep App_init) = Some (message_or_default ?e)"
    and b: "error_banner (fetchImages ?rep App_init) \<longleftrightarrow> message_or_default ?e \<noteq> []"
    and c: "loading (fetchImages ?rep App_init) = False"
    and d: "rows (fetchImages ?rep App_init) = []"
    and f: "rows16 (fetchImages16 ?rep App16_init) = []"
    by blast+
  have m: "message_or_default ?e = ''permission denied''"
    by (simp add: message_or_default_def)
  have "fetchImages ?rep App_init
          = \<lparr>rows = rows (fetchImages ?rep App_init), loading = loading (fetchImages ?rep App_init),
             error = error (fetchImages ?rep App_init)\<rparr>"
    by simp
  with a b c d f h m show ?thesis
    by simp
qed

subsection \<open>The user's delete\<close>

lemma handleDelete_end_rows:
  "rows16 (handleDelete_end row rep s) =
     (if succeeded rep then filter (\<lambda>r. u_id r \<noteq> u_id row) (rows16 s) else rows16 s)"
  by (cases rep rule: succeeded.cases) (simp_all add: handleDelete_end_def handleDelete_finally_def)

lemma handleDelete_end_deleting: "deleting (handleDelete_end row rep s) (u_id row) = None"
  by (cases rep rule: succeeded.cases) (simp_all add: handleDelete_end_def handleDelete_finally_def)

lemma handleDelete_end_timeouts:
  "timeouts (handleDelete_end row rep s) = timeouts s @ [(3000, ClearStatusMsg)]"
  by (cases rep rule: succeeded.cases) (simp_all add: handleDelete_end_def handleDelete_finally_def)

text \<open>
  Claim C7. For a row with an id, the handler marks the id as in flight and waits for
  the remote delete. In whatever state \<open>s\<close> the component is when the remote delete
  settles: the record is filtered out of the collection exactly when the delete came
  back without an error; when it returned an error or was rejected, the collection
  is as it was, the failure text with the error is appended to the status message and
  one alert is shown; and in all cases the in-flight marker of the id is removed and
  one timer of 3000 ms is started whose callback empties the status message.
\<close>

theorem local_delete:
  "u_id row \<noteq> [] \<longrightarrow>
     handleDelete row rep st = handleDelete_end row rep (handleDelete_begin row st)
   \<and> deleting (handleDelete_begin row st) (u_id row) = Some True
   \<and> rows16 (handleDelete_begin row st) = rows16 st
   \<and> rows16 (handleDelete_end row rep s) =
        (if succeeded rep then filter (\<lambda>r. u_id r \<noteq> u_id row) (rows16 s) else rows16 s)
   \<and> rows16 (handleDelete row rep st) =
        (if succeeded rep then filter (\<lambda>r. u_id r \<noteq> u_id row) (rows16 st) else rows16 st)
   \<and> (\<forall>d e. rep = Reply d (Some e) \<longrightarrow>
          statusMsg (handleDelete_end row rep s)
            = statusMsg s @ newline @ ''[error] DB delete failed: '' @ error_text e
        \<and> alerts (handleDelete_end row rep s)
            = alerts s @ [''DB delete failed:'' @ newline @ error_text e])
   \<and> (\<forall>e. rep = Rejected e \<longrightarrow>
          statusMsg (handleDelete_end row rep s)
            = statusMsg s @ newline @ ''[exception] '' @ error_text e
        \<and> length (alerts (handleDelete_end row rep s)) = Suc (length (alerts s)))
   \<and> deleting (handleDelete_end row rep s) (u_id row) = None
   \<and> deleting (handleDelete row rep st) (u_id row) = None
   \<and> timeouts (handleDelete_end row rep s) = timeouts s @ [(3000, ClearStatusMsg)]
   \<and> timeouts (handleDelete row rep st) = timeouts st @ [(3000, ClearStatusMsg)]
   \<and> statusMsg (fire ClearStatusMsg s) = []"
proof (intro impI conjI allI)
  assume i: "u_id row \<noteq> []"
  show h: "handleDelete row rep st = handleDelete_end row rep (handleDelete_begin row st)"
    using i by (simp add: handleDelete_def)
  show "deleting (handleDelete_begin row st) (u_id row) = Some True"
    using i by (simp add: handleDelete_begin_def)
  show b: "rows16 (handleDelete_begin row st) = rows16 st"
    by (simp add: handleDelete_begin_def)
  show "rows16 (handleDelete_end row rep s) =
        (if succeeded rep then filter (\<lambda>r. u_id r \<noteq> u_id row) (rows16 s) else rows16 s)"
    by (rule handleDelete_end_rows)
  show "rows16 (handleDelete row rep st) =
        (if succeeded rep then filter (\<lambda>r. u_id r \<noteq> u_id row) (rows16 st) else rows16 st)"
    by (simp add: h handleDelete_end_rows b)
  show "deleting (handleDelete_end row rep s) (u_id row) = None"
    by (rule handleDelete_end_deleting)
  show "deleting (handleDelete row rep st) (u_id row) = None"
    by (simp add: h handleDelete_end_deleting)
  show "timeouts (handleDelete_end row rep s) = timeouts s @ [(3000, ClearStatusMsg)]"
    by (rule handleDelete_end_timeouts)
  show "timeouts (handleDelete row rep st) = timeouts st @ [(3000, ClearStatusMsg)]"
    using i by (simp add: h handleDelete_end_timeouts handleDelete_begin_def)
  show "statusMsg (fire ClearStatusMsg s) = []"
    by simp
next
  fix d e
  assume "rep = Reply d (Some e)"
  then show "statusMsg (handleDelete_end row rep s)
               = statusMsg s @ newline @ ''[error] DB delete failed: '' @ error_text e"
    and "alerts (handleDelete_end row rep s)
               = alerts s @ [''DB delete failed:'' @ newline @ error_text e]"
    by (simp_all add: handleDelete_end_def handleDelete_finally_def)
next
  fix e
  assume "rep = Rejected e"
  then show "statusMsg (handleDelete_end row rep s)
               = statusMsg s @ newline @ ''[exception] '' @ error_text e"
    and "length (alerts (handleDelete_end row rep s)) = Suc (length (alerts s))"
    by (simp_all add: handleDelete_end_def handleDelete_finally_def)
qed

text \<open>
  The witness deletes the record \<open>a\<close> from a collection of two: once with a reply
  without error, once with a returned error.
\<close>

theorem local_delete_witness:
  "u_id \<lparr>u_id = ''a'', u_image_url = Some ''ua'', u_created_at = None\<rparr> \<noteq> []
   \<and> map u_id (rows16 (handleDelete \<lparr>u_id = ''a'', u_image_url = Some ''ua'', u_created_at = None\<rparr>
        (Reply None None)
        (App16_init\<lparr>rows16 := [\<lparr>u_id = ''a'', u_image_url = Some ''ua'', u_created_at = None\<rparr>,
                                \<lparr>u_id = ''b'', u_image_url = Some ''ub'', u_created_at = None\<rparr>]\<rparr>)))
     = [''b'']
   \<and> map u_id (rows16 (handleDelete \<lparr>u_id = ''a'', u_image_url = Some ''ua'', u_created_at = None\<rparr>
        (Reply None (Some (JsError (Some ''denied''))))
        (App16_init\<lparr>rows16 := [\<lparr>u_id = ''a'', u_image_url = Some ''ua'', u_created_at = None\<rparr>,
                                \<lparr>u_id = ''b'', u_image_url = Some ''ub'', u_created_at = None\<rparr>]\<rparr>)))
     = [''a'', ''b'']
   \<and> deleting (handleDelete \<lparr>u_id = ''a'', u_image_url = Some ''ua'', u_created_at = None\<rparr>
        (Reply None (Some (JsError (Some ''denied''))))
        (App16_init\<lparr>rows16 := [\<lparr>u_id = ''a'', u_image_url = Some ''ua'', u_created_at = None\<rparr>,
                                \<lparr>u_id = ''b'', u_image_url = Some ''ub'', u_created_at = None\<rparr>]\<rparr>)) ''a''
     = None
   \<and> timeouts (handleDelete \<lparr>u_id = ''a'', u_image_url = Some ''ua'', u_created_at = None\<rparr>
        (Reply None (Some (JsError (Some ''denied''))))
        (App16_init\<lparr>rows16 := [\<lparr>u_id = ''a'', u_image_url = Some ''ua'', u_created_at = None\<rparr>,
                                \<lparr>u_id = ''b'', u_image_url = Some ''ub'', u_created_at = None\<rparr>]\<rparr>))
     = [(3000, ClearStatusMsg)]"
proof -
  let ?a = "\<lparr>u_id = ''a'', u_image_url = Some ''ua'', u_created_at = None\<rparr>"
  let ?st = "App16_init\<lparr>rows16 := [\<lparr>u_id = ''a'', u_image_url = Some ''ua'', u_created_at = None\<rparr>,
                                \<lparr>u_id = ''b'', u_image_url = Some ''ub'', u_created_at = None\<rparr>]\<rparr>"
  let ?ok = "Reply None None :: unit reply"
  let ?err = "Reply None (Some (JsError (Some ''denied''))) :: unit reply"
  have i: "u_id ?a \<noteq> []"
    by simp
  from local_delete [of ?a ?ok ?st ?st] i
  have a: "rows16 (handleDelete ?a ?ok ?st) =
        (if succeeded ?ok then filter (\<lambda>r. u_id r \<noteq> u_id ?a) (rows16 ?st) else rows16 ?st)"
    by blast
  from local_delete [of ?a ?err ?st ?st] i
  have b: "rows16 (handleDelete ?a ?err ?st) =
        (if succeeded ?err then filter (\<lambda>r. u_id r \<noteq> u_id ?a) (rows16 ?st) else rows16 ?st)"
    and c: "deleting (handleDelete ?a ?err ?st) (u_id ?a) = None"
    and d: "timeouts (handleDelete ?a ?err ?st) = timeouts ?st @ [(3000, ClearStatusMsg)]"
    by blast+
  from a b c d i show ?thesis
    by (simp add: App16_init_def)
qed

section \<open>Properties of the layout editor\<close>

subsection \<open>Drag translation\<close>

lemma move_views_same:
  "round (v_x (cur_view prev (d_id d))) = round (nextX d e)
     \<Longrightarrow> round (v_y (cur_view prev (d_id d))) = round (nextY d e)
     \<Longrightarrow> move_views d e prev = Same"
  by (simp add: move_views_def)

lemma move_views_new:
  "\<not> (round (v_x (cur_view prev (d_id d))) = round (nextX d e)
        \<and> round (v_y (cur_view prev (d_id d))) = round (nextY d e))
     \<Longrightarrow> move_views d e prev
           = New (prev(d_id d \<mapsto> (cur_view prev (d_id d))\<lparr>v_x := nextX d e, v_y := nextY d e\<rparr>))"
  by (auto simp: move_views_def Let_def)

text \<open>
  Claim C4. While a drag session \<open>d\<close> is open, a pointer move to
  \<open>(clientX, clientY)\<close> computes the position
  \<open>(clientX - canvasLeft + scrollLeft - offsetX, clientY - canvasTop + scrollTop - offsetY)\<close>.
  When its rounded coordinates equal the rounded current ones, the state is returned
  as it is, debounce timer included. Otherwise the frame of the session gets exactly
  that position and keeps its size, the other frames and the session stay as they
  are, and the debounce timer is restarted once. Without a session a move does
  nothing.
\<close>

theorem drag_translation:
  "(dragging st = None \<longrightarrow> onMove e st = st)
   \<and> (dragging st = Some d \<longrightarrow>
        (if round (v_x (cur_view (views st) (d_id d)))
              = round (clientX e - canvasLeft d + scrollLeft d - offsetX d)
            \<and> round (v_y (cur_view (views st) (d_id d)))
              = round (clientY e - canvasTop d + scrollTop d - offsetY d)
         then onMove e st = st
         else views (onMove e st) (d_id d)
                = Some ((cur_view (views st) (d_id d))
                    \<lparr>v_x := clientX e - canvasLeft d + scrollLeft d - offsetX d,
                     v_y := clientY e - canvasTop d + scrollTop d - offsetY d\<rparr>)
            \<and> (\<forall>j. j \<noteq> d_id d \<longrightarrow> views (onMove e st) j = views st j)
            \<and> dragging (onMove e st) = Some d
            \<and> timer_resets (onMove e st) = Suc (timer_resets st)))"
proof (intro conjI impI)
  assume "dragging st = None"
  then show "onMove e st = st"
    by (simp add: onMove_def)
next
  assume d: "dragging st = Some d"
  let ?same = "round (v_x (cur_view (views st) (d_id d))) = round (nextX d e)
             \<and> round (v_y (cur_view (views st) (d_id d))) = round (nextY d e)"
  show "if round (v_x (cur_view (views st) (d_id d)))
              = round (clientX e - canvasLeft d + scrollLeft d - offsetX d)
            \<and> round (v_y (cur_view (views st) (d_id d)))
              = round (clientY e - canvasTop d + scrollTop d - offsetY d)
         then onMove e st = st
         else views (onMove e st) (d_id d)
                = Some ((cur_view (views st) (d_id d))
                    \<lparr>v_x := clientX e - canvasLeft d + scrollLeft d - offsetX d,
                     v_y := clientY e - canvasTop d + scrollTop d - offsetY d\<rparr>)
            \<and> (\<forall>j. j \<noteq> d_id d \<longrightarrow> views (onMove e st) j = views st j)
            \<and> dragging (onMove e st) = Some d
            \<and> timer_resets (onMove e st) = Suc (timer_resets st)"
  proof (cases ?same)
    case True
    then have "move_views d e (views st) = Same"
      by (simp add: move_views_same)
    then have "onMove e st = st"
      using d by (simp add: onMove_def setViews_def)
    with True show ?thesis
      by (simp add: nextX_def nextY_def)
  next
    case False
    then have "move_views d e (views st)
                 = New ((views st)(d_id d \<mapsto>
                     (cur_view (views st) (d_id d))\<lparr>v_x := nextX d e, v_y := nextY d e\<rparr>))"
      by (rule move_views_new)
    then have "onMove e st
                 = st\<lparr>views := (views st)(d_id d \<mapsto>
                         (cur_view (views st) (d_id d))\<lparr>v_x := nextX d e, v_y := nextY d e\<rparr>),
                      timer_resets := Suc (timer_resets st)\<rparr>"
      using d by (simp add: onMove_def setViews_def)
    moreover from False have
      "\<not> (round (v_x (cur_view (views st) (d_id d)))
              = round (clientX e - canvasLeft d + scrollLeft d - offsetX d)
            \<and> round (v_y (cur_view (views st) (d_id d)))
              = round (clientY e - canvasTop d + scrollTop d - offsetY d))"
      by (simp add: nextX_def nextY_def)
    ultimately show ?thesis
      using d by (simp only: if_not_P) (simp add: nextX_def nextY_def)
  qed
qed

text \<open>
  The witness is the example of the specification: canvas origin (100, 50), no
  scroll, pointer offset (10, 10), the frame at (10, 10); a move to (200, 150) puts
  the frame at (90, 90). A second move by a fifth of a pixel rounds to the same
  position and returns the state as it is.
\<close>

theorem drag_translation_witness:
  "dragging \<lparr>views = [''frame-1'' \<mapsto> \<lparr>v_x = 10, v_y = 10, v_w = 260, v_h = 180\<rparr>],
             dragging = Some \<lparr>d_id = ''frame-1'', offsetX = 10, offsetY = 10, canvasLeft = 100,
                               canvasTop = 50, scrollLeft = 0, scrollTop = 0\<rparr>,
             timer_resets = 0\<rparr>
     = Some \<lparr>d_id = ''frame-1'', offsetX = 10, offsetY = 10, canvasLeft = 100,
              canvasTop = 50, scrollLeft = 0, scrollTop = 0\<rparr>
   \<and> views (onMove \<lparr>clientX = 200, clientY = 150\<rparr>
       \<lparr>views = [''frame-1'' \<mapsto> \<lparr>v_x = 10, v_y = 10, v_w = 260, v_h = 180\<rparr>],
        dragging = Some \<lparr>d_id = ''frame-1'', offsetX = 10, offsetY = 10, canvasLeft = 100,
                          canvasTop = 50, scrollLeft = 0, scrollTop = 0\<rparr>,
        timer_resets = 0\<rparr>) ''frame-1''
     = Some \<lparr>v_x = 90, v_y = 90, v_w = 260, v_h = 180\<rparr>
   \<and> timer_resets (onMove \<lparr>clientX = 200, clientY = 150\<rparr>
       \<lparr>views = [''frame-1'' \<mapsto> \<lparr>v_x = 10, v_y = 10, v_w = 260, v_h = 180\<rparr>],
        dragging = Some \<lparr>d_id = ''frame-1'', offsetX = 10, offsetY = 10, canvasLeft = 100,
                          canvasTop = 50, scrollLeft = 0, scrollTop = 0\<rparr>,
        timer_resets = 0\<rparr>) = 1
   \<and> onMove \<lparr>clientX = 200.2, clientY = 150\<rparr>
       \<lparr>views = [''frame-1'' \<mapsto> \<lparr>v_x = 90, v_y = 90, v_w = 260, v_h = 180\<rparr>],
        dragging = Some \<lparr>d_id = ''frame-1'', offsetX = 10, offsetY = 10, canvasLeft = 100,
                          canvasTop = 50, scrollLeft = 0, scrollTop = 0\<rparr>,
        timer_resets = 1\<rparr>
     = \<lparr>views = [''frame-1'' \<mapsto> \<lparr>v_x = 90, v_y = 90, v_w = 260, v_h = 180\<rparr>],
        dragging = Some \<lparr>d_id = ''frame-1'', offsetX = 10, offsetY = 10, canvasLeft = 100,
                          canvasTop = 50, scrollLeft = 0, scrollTop = 0\<rparr>,
        timer_resets = 1\<rparr>"
proof -
  let ?d = "\<lparr>d_id = ''frame-1'', offsetX = 10, offsetY = 10, canvasLeft = 100,
             canvasTop = 50, scrollLeft = 0, scrollTop = 0\<rparr>"
  let ?st = "\<lparr>views = [''frame-1'' \<mapsto> \<lparr>v_x = 10, v_y = 10, v_w = 260, v_h = 180\<rparr>],
              dragging = Some ?d, timer_resets = 0\<rparr>"
  let ?st' = "\<lparr>views = [''frame-1'' \<mapsto> \<lparr>v_x = 90, v_y = 90, v_w = 260, v_h = 180\<rparr>],
               dragging = Some ?d, timer_resets = 1\<rparr>"
  let ?e = "\<lparr>clientX = 200, clientY = 150\<rparr>"
  let ?e' = "\<lparr>clientX = 200.2, clientY = 150\<rparr>"
  have r: "round (451 / 5 :: real) = 90"
    by (simp add: round_def floor_eq_iff)
  have h: "dragging ?st = Some ?d" and h': "dragging ?st' = Some ?d"
    by simp_all
  from drag_translation [of ?st ?e ?d] h
  have a: "views (onMove ?e ?st) ''frame-1'' = Some \<lparr>v_x = 90, v_y = 90, v_w = 260, v_h = 180\<rparr>
         \<and> timer_resets (onMove ?e ?st) = 1"
    by (simp add: cur_view_def)
  from drag_translation [of ?st' ?e' ?d] h'
  have b: "onMove ?e' ?st' = ?st'"
    by (simp add: cur_view_def r)
  from a b h show ?thesis
    by simp
qed

section \<open>Properties of the duplicate cleanup\<close>

subsection \<open>The grouping pass\<close>

lemma push_row_map_of:
  "map_of (push_row row m) =
     (map_of m)(nfc_key row \<mapsto> (case map_of m (nfc_key row) of None \<Rightarrow> [row] | Some g \<Rightarrow> g @ [row]))"
  by (induction m) (auto simp: fun_eq_iff)

lemma push_row_fst:
  "map fst (push_row row m) =
     (if nfc_key row \<in> set (map fst m) then map fst m else map fst m @ [nfc_key row])"
proof (induction m)
  case Nil
  show ?case by simp
next
  case (Cons p m)
  obtain k g where p: "p = (k, g)"
    by (cases p)
  have "(nfc_key row, b) \<in> set m \<Longrightarrow> nfc_key row \<in> fst ` set m" for b
    by force
  with Cons p show ?case
    by auto
qed

lemma push_row_distinct: "distinct (map fst m) \<Longrightarrow> distinct (map fst (push_row row m))"
  by (simp add: push_row_fst)

lemma push_row_groups:
  "map_of m = groups_of rs \<Longrightarrow> map_of (push_row row m) = groups_of (rs @ [row])"
  by (auto simp: push_row_map_of groups_of_def group_of_def fun_eq_iff filter_empty_conv intro: rev_image_eqI)

text \<open>A pass over rows with an inherited key throws; any other pass does not.\<close>

lemma group_rows_throws:
  "\<exists>r\<in>set locked. nfc_key r \<in> set Object_prototype_keys
     \<Longrightarrow> group_rows locked m = Inl push_TypeError"
  by (induction locked arbitrary: m) (auto simp: group_row_def)

lemma group_rows_groups:
  "\<forall>r\<in>set locked. nfc_key r \<notin> set Object_prototype_keys \<Longrightarrow>
   map_of m = groups_of rs \<Longrightarrow> distinct (map fst m) \<Longrightarrow>
     \<exists>m'. group_rows locked m = Inr m' \<and> map_of m' = groups_of (rs @ locked)
          \<and> distinct (map fst m')"
proof (induction locked arbitrary: m rs)
  case Nil
  then show ?case by simp
next
  case (Cons row locked)
  from Cons.prems have "\<forall>r\<in>set locked. nfc_key r \<notin> set Object_prototype_keys"
    and g: "group_row row m = Inr (push_row row m)"
    by (simp_all add: group_row_def)
  from Cons.IH [OF this(1), of "push_row row m" "rs @ [row]"] Cons.prems(2,3) g
  show ?case
    by (simp add: push_row_groups push_row_distinct)
qed

lemma byNfc_throws:
  "\<exists>r\<in>set locked. nfc_key r \<in> set Object_prototype_keys
     \<Longrightarrow> byNfc (Some locked) = Inl push_TypeError"
  by (simp add: byNfc_def group_rows_throws)

lemma byNfc_groups:
  assumes "\<forall>r\<in>set locked. nfc_key r \<notin> set Object_prototype_keys"
  shows "\<exists>m. byNfc (Some locked) = Inr m
           \<and> set m = (\<lambda>k. (k, group_of k locked)) ` nfc_key ` set locked"
proof -
  have "map_of [] = groups_of []"
    by (simp add: groups_of_def fun_eq_iff)
  from group_rows_groups [OF assms this] obtain m
    where m: "group_rows locked [] = Inr m" "map_of m = groups_of locked" "distinct (map fst m)"
    by auto
  have "(k, g) \<in> set m \<longleftrightarrow> groups_of locked k = Some g" for k g
    using m(2,3) by (metis map_of_eq_Some_iff)
  then have "set m = (\<lambda>k. (k, group_of k locked)) ` nfc_key ` set locked"
    by (auto simp: groups_of_def split: if_splits)
  with m(1) show ?thesis
    by (simp add: byNfc_def)
qed

lemma idsToDelete_throws:
  "\<exists>r\<in>set locked. nfc_key r \<in> set Object_prototype_keys
     \<Longrightarrow> idsToDelete parse nansort (Some locked) = Inl push_TypeError"
  by (simp add: idsToDelete_def byNfc_throws)

lemma idsToDelete_set:
  assumes "\<forall>r\<in>set locked. nfc_key r \<notin> set Object_prototype_keys"
  shows "\<exists>ids. idsToDelete parse nansort (Some locked) = Inr ids
           \<and> set ids = (\<Union>k\<in>nfc_key ` set locked. set (group_ids parse nansort (group_of k locked)))"
proof -
  from byNfc_groups [OF assms] obtain m where "byNfc (Some locked) = Inr m"
    and "set m = (\<lambda>k. (k, group_of k locked)) ` nfc_key ` set locked"
    by blast
  then show ?thesis
    by (simp add: idsToDelete_def)
qed

subsection \<open>The row a group keeps\<close>

lemma sorted_le_last: "sorted xs \<Longrightarrow> x \<in> set xs \<Longrightarrow> x \<le> last xs"
  by (induction xs) auto

lemma set_butlast_distinct: "distinct xs \<Longrightarrow> xs \<noteq> [] \<Longrightarrow> set (butlast xs) = set xs - {last xs}"
  by (induction xs rule: rev_induct) auto

lemma last_filter_holds: "xs \<noteq> [] \<Longrightarrow> P (last xs) \<Longrightarrow> last (filter P xs) = last xs"
  by (induction xs rule: rev_induct) simp_all

lemma filter_nonempty_ids:
  "\<forall>r\<in>set B. l_id r \<noteq> [] \<Longrightarrow> filter (\<lambda>i. i \<noteq> []) (map l_id B) = map l_id B"
  by (induction B) simp_all

text \<open>
  When no timestamp of the array is \<open>NaN\<close>, the sort is the stable sort by
  descending milliseconds.
\<close>

lemma sort_desc_numbers:
  "list_all (\<lambda>r. created_ms parse r \<noteq> None) g
     \<Longrightarrow> sort_desc parse nansort g = sort_key (\<lambda>r. - millis parse r) g"
  by (simp add: sort_desc_def)

lemma sort_desc_nonempty:
  "list_all (\<lambda>r. created_ms parse r \<noteq> None) g \<Longrightarrow> g \<noteq> [] \<Longrightarrow> sort_desc parse nansort g \<noteq> []"
  by (metis length_sort sort_desc_numbers length_0_conv)

lemma kept_in_group:
  "list_all (\<lambda>r. created_ms parse r \<noteq> None) g \<Longrightarrow> g \<noteq> [] \<Longrightarrow> kept parse nansort g \<in> set g"
  using sort_desc_nonempty [of parse g nansort] last_in_set [of "sort_desc parse nansort g"]
  by (simp add: kept_def sort_desc_numbers)

lemma kept_oldest:
  assumes "list_all (\<lambda>r. created_ms parse r \<noteq> None) g" and "x \<in> set g"
  shows "millis parse (kept parse nansort g) \<le> millis parse x"
proof -
  let ?f = "\<lambda>r. - millis parse r"
  let ?s = "sort_desc parse nansort g"
  from assms(2) have "g \<noteq> []"
    by auto
  with assms(1) have ne: "?s \<noteq> []"
    by (rule sort_desc_nonempty)
  have s: "?s = sort_key ?f g"
    using assms(1) by (rule sort_desc_numbers)
  have "sorted (map ?f ?s)"
    by (simp add: s)
  moreover have "?f x \<in> set (map ?f ?s)"
    using assms(2) by (simp add: s)
  ultimately have "?f x \<le> last (map ?f ?s)"
    by (rule sorted_le_last)
  with ne show ?thesis
    by (simp add: last_map kept_def)
qed

lemma kept_last_of_oldest:
  assumes n: "list_all (\<lambda>r. created_ms parse r \<noteq> None) g" and "g \<noteq> []"
  shows "kept parse nansort g
           = last (filter (\<lambda>x. \<forall>y\<in>set g. millis parse x \<le> millis parse y) g)"
proof -
  let ?f = "\<lambda>r. - millis parse r"
  let ?s = "sort_desc parse nansort g"
  let ?k = "kept parse nansort g"
  have ne: "?s \<noteq> []"
    using assms by (rule sort_desc_nonempty)
  have s: "?s = sort_key ?f g"
    using n by (rule sort_desc_numbers)
  have kin: "?k \<in> set g"
    using assms by (rule kept_in_group)
  have old: "(\<forall>y\<in>set g. millis parse x \<le> millis parse y) \<longleftrightarrow> ?f x = ?f ?k"
    if "x \<in> set g" for x
  proof
    assume "\<forall>y\<in>set g. millis parse x \<le> millis parse y"
    with kin have "millis parse x \<le> millis parse ?k"
      by blast
    moreover have "millis parse ?k \<le> millis parse x"
      using n that by (rule kept_oldest)
    ultimately show "?f x = ?f ?k"
      by simp
  next
    assume e: "?f x = ?f ?k"
    show "\<forall>y\<in>set g. millis parse x \<le> millis parse y"
    proof
      fix y
      assume "y \<in> set g"
      with n have "millis parse ?k \<le> millis parse y"
        by (rule kept_oldest)
      with e show "millis parse x \<le> millis parse y"
        by simp
    qed
  qed
  have "?k = last (filter (\<lambda>y. ?f y = ?f ?k) ?s)"
    using ne by (simp add: kept_def last_filter_holds)
  also have "\<dots> = last (filter (\<lambda>y. ?f y = ?f ?k) g)"
    unfolding s by (simp only: sort_key_stable)
  also have "filter (\<lambda>y. ?f y = ?f ?k) g
               = filter (\<lambda>x. \<forall>y\<in>set g. millis parse x \<le> millis parse y) g"
    by (rule filter_cong) (simp_all add: old)
  finally show ?thesis .
qed

lemma group_ids_set:
  assumes "list_all (\<lambda>r. created_ms parse r \<noteq> None) g"
    and "distinct g" and "\<forall>r\<in>set g. l_id r \<noteq> []"
  shows "set (group_ids parse nansort g)
           = (if length g \<le> 1 then {} else l_id ` (set g - {kept parse nansort g}))"
proof (cases "length g \<le> 1")
  case True
  then show ?thesis by (simp add: group_ids_def)
next
  case False
  then have "g \<noteq> []"
    by auto
  with assms(1) have ne: "sort_desc parse nansort g \<noteq> []"
    by (rule sort_desc_nonempty)
  have s: "sort_desc parse nansort g = sort_key (\<lambda>r. - millis parse r) g"
    using assms(1) by (rule sort_desc_numbers)
  have d: "distinct (sort_desc parse nansort g)"
    using assms(2) by (simp add: s)
  have "set (butlast (sort_desc parse nansort g)) = set g - {kept parse nansort g}"
    using set_butlast_distinct [OF d ne] by (simp add: kept_def s)
  moreover have "\<forall>r\<in>set (butlast (sort_desc parse nansort g)). l_id r \<noteq> []"
    using assms(3) by (auto simp: s dest: in_set_butlastD)
  then have "set (filter (\<lambda>i. i \<noteq> []) (map l_id (butlast (sort_desc parse nansort g))))
               = l_id ` set (butlast (sort_desc parse nansort g))"
    by (simp add: filter_nonempty_ids)
  ultimately show ?thesis
    using False by (simp add: group_ids_def)
qed
subsection \<open>Which rows are deleted\<close>

lemma concat_chunks_from: "concat (chunks_from i ids) = drop i ids"
proof (induction i ids rule: chunks_from.induct)
  case (1 i ids)
  show ?case
  proof (cases "i < length ids")
    case True
    then have "concat (chunks_from i ids) = take 500 (drop i ids) @ drop (i + 500) ids"
      using "1.IH" by (subst chunks_from.simps) simp
    also have "drop (i + 500) ids = drop 500 (drop i ids)"
      by (simp add: add.commute)
    finally show ?thesis
      by (simp only: append_take_drop_id)
  next
    case False
    then show ?thesis
      by (subst chunks_from.simps) simp
  qed
qed

lemma chunks_from_length: "c \<in> set (chunks_from i ids) \<Longrightarrow> length c \<le> 500"
proof (induction i ids rule: chunks_from.induct)
  case (1 i ids)
  from "1.prems" show ?case
    by (subst (asm) chunks_from.simps) (auto split: if_splits dest: "1.IH")
qed

lemma send_deletes_all: "send_deletes (\<lambda>c. None) cs = (cs, None)"
  by (induction cs) simp_all

lemma deleted_ids_all:
  "idsToDelete parse nansort d = Inr ids
     \<Longrightarrow> deleted_ids parse nansort (\<lambda>c. None) (Reply d None) = ids"
  by (simp add: deleted_ids_def cleanup_locked_def send_deletes_all concat_chunks_from)

lemma cleanup_locked_throws:
  "idsToDelete parse nansort d = Inl e
     \<Longrightarrow> cleanup_locked parse nansort lockedDel (Reply d None) = ([], Some e)"
  by (simp add: cleanup_locked_def)

text \<open>
  A table with a row whose key names a member of \<open>Object.prototype\<close>: the grouping
  pass throws, no delete request is sent, whatever the other rows are.
\<close>

lemma inherited_key_deletes_nothing:
  assumes "\<exists>r\<in>set locked. nfc_key r \<in> set Object_prototype_keys"
  shows "cleanup_locked parse nansort lockedDel (Reply (Some locked) None) = ([], Some push_TypeError)"
    and "deleted_ids parse nansort lockedDel (Reply (Some locked) None) = []"
  using idsToDelete_throws [OF assms, of parse nansort]
  by (simp_all add: deleted_ids_def cleanup_locked_throws)

text \<open>
  A table without such keys, whose timestamps \<open>Date.parse\<close> reads, with pairwise
  distinct and non-empty ids, when every delete request succeeds: a row is deleted
  exactly when its group has more than one member and the row is not the one the
  group keeps.
\<close>

lemma deleted_ids_iff:
  assumes keys: "\<forall>r\<in>set locked. nfc_key r \<notin> set Object_prototype_keys"
    and nums: "\<forall>r\<in>set locked. created_ms parse r \<noteq> None"
    and "distinct (map l_id locked)" and ids: "\<forall>r\<in>set locked. l_id r \<noteq> []"
    and r: "r \<in> set locked"
  shows "l_id r \<in> set (deleted_ids parse nansort (\<lambda>c. None) (Reply (Some locked) None)) \<longleftrightarrow>
           1 < length (group_of (nfc_key r) locked)
         \<and> r \<noteq> kept parse nansort (group_of (nfc_key r) locked)"
proof -
  have inj: "inj_on l_id (set locked)" and dl: "distinct locked"
    using assms(3) by (simp_all add: distinct_map)
  from idsToDelete_set [OF keys, of parse nansort] obtain marked
    where m: "idsToDelete parse nansort (Some locked) = Inr marked"
      and s: "set marked
                = (\<Union>k\<in>nfc_key ` set locked. set (group_ids parse nansort (group_of k locked)))"
    by blast
  have del: "deleted_ids parse nansort (\<lambda>c. None) (Reply (Some locked) None) = marked"
    using m by (rule deleted_ids_all)
  have G: "set (group_ids parse nansort (group_of k locked))
             = (if length (group_of k locked) \<le> 1 then {}
                else l_id ` (set (group_of k locked) - {kept parse nansort (group_of k locked)}))" for k
    using nums dl ids by (intro group_ids_set) (simp_all add: group_of_def list_all_iff)
  show ?thesis
    unfolding del
  proof
    assume "l_id r \<in> set marked"
    then obtain k where "l_id r \<in> set (group_ids parse nansort (group_of k locked))"
      by (auto simp: s)
    then have len: "1 < length (group_of k locked)"
      and "l_id r \<in> l_id ` (set (group_of k locked) - {kept parse nansort (group_of k locked)})"
      unfolding G by (simp_all split: if_splits)
    then obtain x
      where x: "x \<in> set (group_of k locked)" "x \<noteq> kept parse nansort (group_of k locked)"
        and e: "l_id r = l_id x"
      by blast
    from x(1) have "x \<in> set locked" and kx: "nfc_key x = k"
      by (simp_all add: group_of_def)
    with inj e r have "x = r"
      by (simp add: inj_on_eq_iff)
    with len x kx show "1 < length (group_of (nfc_key r) locked)
                      \<and> r \<noteq> kept parse nansort (group_of (nfc_key r) locked)"
      by simp
  next
    assume a: "1 < length (group_of (nfc_key r) locked)
             \<and> r \<noteq> kept parse nansort (group_of (nfc_key r) locked)"
    have "r \<in> set (group_of (nfc_key r) locked)"
      using r by (simp add: group_of_def)
    with a have "l_id r \<in> set (group_ids parse nansort (group_of (nfc_key r) locked))"
      unfolding G by auto
    with r show "l_id r \<in> set marked"
      unfolding s by blast
  qed
qed

lemma deleted_ids_subset:
  assumes keys: "\<forall>r\<in>set locked. nfc_key r \<notin> set Object_prototype_keys"
    and nums: "\<forall>r\<in>set locked. created_ms parse r \<noteq> None"
  shows "set (deleted_ids parse nansort (\<lambda>c. None) (Reply (Some locked) None))
           \<subseteq> l_id ` set locked"
proof -
  from idsToDelete_set [OF keys, of parse nansort] obtain marked
    where m: "idsToDelete parse nansort (Some locked) = Inr marked"
      and s: "set marked
                = (\<Union>k\<in>nfc_key ` set locked. set (group_ids parse nansort (group_of k locked)))"
    by blast
  have sub: "set (group_ids parse nansort (group_of k locked)) \<subseteq> l_id ` set locked" for k
  proof -
    have "list_all (\<lambda>r. created_ms parse r \<noteq> None) (group_of k locked)"
      using nums by (simp add: group_of_def list_all_iff)
    then have "set (sort_desc parse nansort (group_of k locked)) \<subseteq> set locked"
      by (simp add: sort_desc_numbers group_of_def)
    moreover have "set (group_ids parse nansort (group_of k locked))
                     \<subseteq> l_id ` set (sort_desc parse nansort (group_of k locked))"
      by (auto simp: group_ids_def dest: in_set_butlastD)
    ultimately show ?thesis
      by blast
  qed
  show ?thesis
    unfolding deleted_ids_all [OF m] s using sub by blast
qed
lemma created_ms_absent:
  "l_created_at r = None \<or> l_created_at r = Some [] \<Longrightarrow> created_ms parse r = Some 0"
  by (auto simp: created_ms_def)

text \<open>
  The row a group of such a table keeps is a member no other member is older than,
  where a missing or empty timestamp counts as 0 milliseconds; among the oldest
  members it is the one that was read last.
\<close>

lemma kept_is_oldest:
  assumes nums: "\<forall>r\<in>set locked. created_ms parse r \<noteq> None" and r: "r \<in> set locked"
  shows "kept parse nansort (group_of (nfc_key r) locked) \<in> set (group_of (nfc_key r) locked)"
    and "\<forall>x\<in>set (group_of (nfc_key r) locked).
           millis parse (kept parse nansort (group_of (nfc_key r) locked)) \<le> millis parse x"
    and "kept parse nansort (group_of (nfc_key r) locked)
           = last (filter (\<lambda>x. \<forall>y\<in>set (group_of (nfc_key r) locked).
                                  millis parse x \<le> millis parse y)
                     (group_of (nfc_key r) locked))"
    and "l_created_at r = None \<or> l_created_at r = Some [] \<longrightarrow> millis parse r = 0"
proof -
  let ?G = "group_of (nfc_key r) locked"
  have n: "list_all (\<lambda>r. created_ms parse r \<noteq> None) ?G"
    using nums by (simp add: group_of_def list_all_iff)
  have ne: "?G \<noteq> []"
    using r by (auto simp: group_of_def filter_empty_conv)
  show "kept parse nansort ?G \<in> set ?G"
    using n ne by (rule kept_in_group)
  show "\<forall>x\<in>set ?G. millis parse (kept parse nansort ?G) \<le> millis parse x"
    using n by (auto intro: kept_oldest)
  show "kept parse nansort ?G
          = last (filter (\<lambda>x. \<forall>y\<in>set ?G. millis parse x \<le> millis parse y) ?G)"
    using n ne by (rule kept_last_of_oldest)
  show "l_created_at r = None \<or> l_created_at r = Some [] \<longrightarrow> millis parse r = 0"
    by (auto simp: millis_def created_ms_def)
qed

text \<open>
  The example of the specification on such a platform: with \<open>t1\<close> before \<open>t2\<close>,
  exactly id 2 is deleted.
\<close>

lemma example_deletes_id_2:
  assumes "t1 \<noteq> []" "t2 \<noteq> []" "parse t1 = Some a" "parse t2 = Some b" "a < b"
  shows "deleted_ids parse nansort (\<lambda>c. None)
           (Reply (Some [\<lparr>l_id = ''1'', l_nfc_id = Some ''A'', l_created_at = Some t1\<rparr>,
                         \<lparr>l_id = ''2'', l_nfc_id = Some ''A'', l_created_at = Some t2\<rparr>,
                         \<lparr>l_id = ''3'', l_nfc_id = Some ''B'', l_created_at = None\<rparr>]) None)
         = [''2'']"
proof -
  have "idsToDelete parse nansort
          (Some [\<lparr>l_id = ''1'', l_nfc_id = Some ''A'', l_created_at = Some t1\<rparr>,
                 \<lparr>l_id = ''2'', l_nfc_id = Some ''A'', l_created_at = Some t2\<rparr>,
                 \<lparr>l_id = ''3'', l_nfc_id = Some ''B'', l_created_at = None\<rparr>])
        = Inr [''2'']"
    using assms
    by (simp add: idsToDelete_def byNfc_def group_row_def Object_prototype_keys_def nfc_key_def
          group_ids_def sort_desc_def created_ms_def millis_def)
  then show ?thesis
    by (rule deleted_ids_all)
qed

text \<open>
  Rows whose \<open>nfc_id\<close> is \<open>null\<close> get the key \<open>''\<close> and so are members of one
  group, together with the rows whose \<open>nfc_id\<close> is the empty string. When such a
  table has two or more of them, each is deleted unless it is the row that group
  keeps.
\<close>

lemma null_keys_one_group:
  assumes keys: "\<forall>r\<in>set locked. nfc_key r \<notin> set Object_prototype_keys"
    and nums: "\<forall>r\<in>set locked. created_ms parse r \<noteq> None"
    and d: "distinct (map l_id locked)" and ids: "\<forall>r\<in>set locked. l_id r \<noteq> []"
    and r: "r \<in> set locked" "l_nfc_id r = None"
    and r': "r' \<in> set locked" "l_nfc_id r' = None" "r \<noteq> r'"
  shows "nfc_key r = []" and "r \<in> set (group_of [] locked)"
    and "l_id r \<in> set (deleted_ids parse nansort (\<lambda>c. None) (Reply (Some locked) None))
           \<longleftrightarrow> r \<noteq> kept parse nansort (group_of [] locked)"
    and "l_id r \<in> set (deleted_ids parse nansort (\<lambda>c. None) (Reply (Some locked) None))
           \<or> l_id r' \<in> set (deleted_ids parse nansort (\<lambda>c. None) (Reply (Some locked) None))"
proof -
  show k: "nfc_key r = []"
    using r(2) by (simp add: nfc_key_def)
  have k': "nfc_key r' = []"
    using r'(2) by (simp add: nfc_key_def)
  show "r \<in> set (group_of [] locked)"
    using r(1) k by (simp add: group_of_def)
  have dg: "distinct (group_of [] locked)"
    using d by (simp add: group_of_def distinct_map)
  have "{r, r'} \<subseteq> set (group_of [] locked)"
    using r(1) r'(1) k k' by (simp add: group_of_def)
  then have "card {r, r'} \<le> card (set (group_of [] locked))"
    by (intro card_mono) simp_all
  with r'(3) dg have len: "1 < length (group_of [] locked)"
    by (simp add: distinct_card)
  show a: "l_id r \<in> set (deleted_ids parse nansort (\<lambda>c. None) (Reply (Some locked) None))
             \<longleftrightarrow> r \<noteq> kept parse nansort (group_of [] locked)"
    using deleted_ids_iff [OF keys nums d ids r(1), of nansort] len by (simp add: k)
  have b: "l_id r' \<in> set (deleted_ids parse nansort (\<lambda>c. None) (Reply (Some locked) None))
             \<longleftrightarrow> r' \<noteq> kept parse nansort (group_of [] locked)"
    using deleted_ids_iff [OF keys nums d ids r'(1), of nansort] len by (simp add: k')
  show "l_id r \<in> set (deleted_ids parse nansort (\<lambda>c. None) (Reply (Some locked) None))
          \<or> l_id r' \<in> set (deleted_ids parse nansort (\<lambda>c. None) (Reply (Some locked) None))"
    using a b r'(3) by auto
qed

subsection \<open>Group keys that name inherited members\<close>

text \<open>
  Claim C3 does not hold on the code for every table. Take the rows of its example
  with the group key \<open>constructor\<close> in place of \<open>A\<close>: the lookup
  \<open>byNfc['constructor']\<close> finds the inherited function, the \<open>push\<close> throws at the
  first row, and the cleanup ends with that exception without deleting any row, on
  every platform and whatever the backend would answer. Id 2, the newer row of its
  group, is not deleted.
\<close>

theorem cleanup_throws_on_constructor_key:
  "cleanup_locked parse nansort lockedDel
     (Reply (Some [\<lparr>l_id = ''1'', l_nfc_id = Some ''constructor'', l_created_at = Some t1\<rparr>,
                   \<lparr>l_id = ''2'', l_nfc_id = Some ''constructor'', l_created_at = Some t2\<rparr>,
                   \<lparr>l_id = ''3'', l_nfc_id = Some ''B'', l_created_at = Some t3\<rparr>]) None)
     = ([], Some push_TypeError)
   \<and> deleted_ids parse nansort lockedDel
     (Reply (Some [\<lparr>l_id = ''1'', l_nfc_id = Some ''constructor'', l_created_at = Some t1\<rparr>,
                   \<lparr>l_id = ''2'', l_nfc_id = Some ''constructor'', l_created_at = Some t2\<rparr>,
                   \<lparr>l_id = ''3'', l_nfc_id = Some ''B'', l_created_at = Some t3\<rparr>]) None)
     = []"
  by (simp add: deleted_ids_def cleanup_locked_def idsToDelete_def byNfc_def group_row_def
        nfc_key_def Object_prototype_keys_def)

text \<open>
  Claim C10 does not hold on the code for every table either, by the same defect.
  Two rows without a key and a third row with the key \<open>toString\<close>: the first two
  are grouped under \<open>''\<close>, the third makes the \<open>push\<close> throw, and the cleanup ends
  without deleting any row. Neither of the two rows without a key is deleted.
\<close>

theorem null_key_rows_survive_inherited_key:
  "cleanup_locked parse nansort lockedDel
     (Reply (Some [\<lparr>l_id = ''1'', l_nfc_id = None, l_created_at = Some t1\<rparr>,
                   \<lparr>l_id = ''2'', l_nfc_id = None, l_created_at = Some t2\<rparr>,
                   \<lparr>l_id = ''3'', l_nfc_id = Some ''toString'', l_created_at = Some t3\<rparr>]) None)
     = ([], Some push_TypeError)
   \<and> deleted_ids parse nansort lockedDel
     (Reply (Some [\<lparr>l_id = ''1'', l_nfc_id = None, l_created_at = Some t1\<rparr>,
                   \<lparr>l_id = ''2'', l_nfc_id = None, l_created_at = Some t2\<rparr>,
                   \<lparr>l_id = ''3'', l_nfc_id = Some ''toString'', l_created_at = Some t3\<rparr>]) None)
     = []"
  by (simp add: deleted_ids_def cleanup_locked_def idsToDelete_def byNfc_def group_row_def
        nfc_key_def Object_prototype_keys_def)

end
